theory Spec2Isabelle
  imports Main "HOL-Library.Word"
begin

section \<open>Solver terms\<close>

text \<open>
  The builder produces Z3 terms. Z3 shares structurally equal terms of one context, so the
  identity of a term is its structure, and a term is modelled by a datatype of the four
  constructs that \<^verbatim>\<open>Z3IteBuilder.cpp\<close> builds: bit-vector numerals
  (\<^verbatim>\<open>context_.bv_val\<close>), named bit-vector constants (\<^verbatim>\<open>context_.bv_const\<close>),
  equality (\<^verbatim>\<open>operator==\<close>) and the conditional (\<^verbatim>\<open>Z3_mk_ite\<close>).
  Index and update expressions range over the same terms.
\<close>

datatype expr =
    BvVal nat nat
  | BvConst string nat
  | Eq expr expr
  | Ite expr expr expr

datatype sort = BoolSort | BvSort nat

text \<open>
  Z3 refuses an equality between terms of different sorts and a conditional whose condition
  is not Boolean or whose branches differ in sort. \<open>sort_of\<close> is that check: it gives the
  sort of a term that Z3 accepts and \<open>None\<close> for a term that Z3 rejects.
\<close>

fun sort_of :: "expr \<Rightarrow> sort option" where
  "sort_of (BvVal v w) = Some (BvSort w)"
| "sort_of (BvConst nm w) = Some (BvSort w)"
| "sort_of (Eq a b) =
     (case sort_of a of
        None \<Rightarrow> None
      | Some sa \<Rightarrow> if sort_of b = Some sa then Some BoolSort else None)"
| "sort_of (Ite c t e) =
     (if sort_of c = Some BoolSort
      then (case sort_of t of
              None \<Rightarrow> None
            | Some st \<Rightarrow> if sort_of e = Some st then Some st else None)
      else None)"

text \<open>
  Values of terms under an assignment \<open>env\<close> of the named constants (a solver model):
  a bit-vector value carries its width. Only a term that Z3 accepts has a value, so both
  branches of a conditional are evaluated and must agree in sort.
\<close>

datatype val = VBool bool | VBv nat nat

fun same_sort :: "val \<Rightarrow> val \<Rightarrow> bool" where
  "same_sort (VBool a) (VBool b) = True"
| "same_sort (VBv w a) (VBv w' b) = (w = w')"
| "same_sort x y = False"

fun eval :: "(string \<Rightarrow> nat \<Rightarrow> nat) \<Rightarrow> expr \<Rightarrow> val option" where
  "eval env (BvVal v w) = Some (VBv w (v mod 2 ^ w))"
| "eval env (BvConst nm w) = Some (VBv w (env nm w mod 2 ^ w))"
| "eval env (Eq a b) =
     (case eval env a of
        None \<Rightarrow> None
      | Some x \<Rightarrow>
          (case eval env b of
             None \<Rightarrow> None
           | Some y \<Rightarrow> if same_sort x y then Some (VBool (x = y)) else None))"
| "eval env (Ite c t e) =
     (case eval env c of
        Some (VBool b) \<Rightarrow>
          (case eval env t of
             None \<Rightarrow> None
           | Some x \<Rightarrow>
               (case eval env e of
                  None \<Rightarrow> None
                | Some y \<Rightarrow> if same_sort x y then Some (if b then x else y) else None))
      | _ \<Rightarrow> None)"

text \<open>
  \<^verbatim>\<open>context_.bv_val(n, sz)\<close> with an \<^verbatim>\<open>unsigned\<close> argument: the numeral of
  sort \<open>sz\<close> bits; Z3 keeps a bit-vector numeral reduced modulo \<open>2 ^ sz\<close>.
\<close>

definition bv_val :: "32 word \<Rightarrow> nat \<Rightarrow> expr" where
  "bv_val n sz = BvVal (unat n mod 2 ^ sz) sz"

definition bv_const :: "string \<Rightarrow> nat \<Rightarrow> expr" where
  "bv_const nm sz = BvConst nm sz"

section \<open>Arrays, update chains and the memory that holds them\<close>

type_synonym addr = nat

text \<open>
  Modelled from the spec: the array descriptor \<^verbatim>\<open>klee::Array\<close> is declared outside
  this file; the spec gives it a declared name, a declared size, a flag for constant versus
  symbolic, and the literal values when constant. \<open>size_a\<close> is the \<^verbatim>\<open>unsigned size\<close>
  field; a constant value is kept as what \<^verbatim>\<open>getZExtValue()\<close> returns for it.
\<close>

record Array =
  name :: string
  size_a :: "32 word"
  isConstantArray :: bool
  constantValues :: "64 word list"

text \<open>
  An update node: the written index, the written value and the next older node
  (\<open>None\<close> is the null pointer that ends the chain). \<open>'e\<close> is the type of the
  engine's own expressions.
\<close>

record 'e UpdateNode =
  index_un :: 'e
  value_un :: 'e
  next_un :: "addr option"

text \<open>
  Arrays and update nodes are identified by their addresses, which are the keys of both
  caches. The memory maps an address to the object it holds; the builder only reads it.
\<close>

record 'e memory =
  arrays :: "addr \<rightharpoonup> Array"
  nodes :: "addr \<rightharpoonup> 'e UpdateNode"

section \<open>The builder and its two caches\<close>

record builder =
  read_map :: "(expr \<times> addr \<times> addr option) \<rightharpoonup> expr"
  array_variables :: "addr \<rightharpoonup> expr list"

definition new_builder :: builder where
  "new_builder = \<lparr>read_map = Map.empty, array_variables = Map.empty\<rparr>"

text \<open>The \<^verbatim>\<open>insert\<close> of a standard map keeps an entry that is already there.\<close>

definition map_insert :: "('k \<rightharpoonup> 'v) \<Rightarrow> 'k \<Rightarrow> 'v \<Rightarrow> ('k \<rightharpoonup> 'v)" where
  "map_insert m k v = (case m k of None \<Rightarrow> m(k \<mapsto> v) | Some _ \<Rightarrow> m)"

subsection \<open>Leaf names\<close>

text \<open>\<^verbatim>\<open>%u\<close>: an unsigned number in decimal.\<close>

definition digit :: "nat \<Rightarrow> char" where
  "digit d = ''0123456789'' ! d"

fun dec :: "nat \<Rightarrow> string" where
  "dec n = (if n < 10 then [digit n] else dec (n div 10) @ [digit (n mod 10)])"

text \<open>\<^verbatim>\<open>%s\<close> of \<^verbatim>\<open>name.c_str()\<close>: the characters before the first NUL.\<close>

definition c_str :: "string \<Rightarrow> string" where
  "c_str s = takeWhile (\<lambda>c. c \<noteq> CHR 0x00) s"

text \<open>
  \<^verbatim>\<open>snprintf(buf, sizeof(buf), "%s_%p_%u", ...)\<close> into a buffer of 256 bytes: the
  formatted text cut to 255 characters. How \<^verbatim>\<open>%p\<close> prints an address is left to
  the C library, so it is the parameter \<open>fmtp\<close>.
\<close>

definition leaf_name :: "(addr \<Rightarrow> string) \<Rightarrow> string \<Rightarrow> addr \<Rightarrow> 32 word \<Rightarrow> string" where
  "leaf_name fmtp nm root i = take 255 (c_str nm @ ''_'' @ fmtp root @ ''_'' @ dec (unat i))"

subsection \<open>\<^verbatim>\<open>Z3IteBuilder::getArrayValues\<close>\<close>

text \<open>
  The two loops \<^verbatim>\<open>for (unsigned i = 0, e = root->size; i != e; ++i)\<close> that push
  one leaf per offset. Reading \<^verbatim>\<open>constantValues[i]\<close> past the end of the vector is
  undefined in the source and \<open>None\<close> here.
\<close>

function constant_loop :: "64 word list \<Rightarrow> 32 word \<Rightarrow> 32 word \<Rightarrow> expr list \<Rightarrow> expr list option" where
  "constant_loop cv i e elem_vector =
     (if i \<noteq> e
      then (if unat i < length cv
            then constant_loop cv (i + 1) e
                   (elem_vector @ [bv_val (ucast (cv ! unat i)) 8])
            else None)
      else Some elem_vector)"
  by pat_completeness auto
termination
  by (relation "measure (\<lambda>(cv, i, e, elem_vector). unat (e - i))")
     (auto simp: unat_minus_one diff_diff_eq [symmetric] unat_gt_0)

function symbolic_loop :: "(addr \<Rightarrow> string) \<Rightarrow> string \<Rightarrow> addr \<Rightarrow> 32 word \<Rightarrow> 32 word \<Rightarrow> expr list \<Rightarrow> expr list" where
  "symbolic_loop fmtp nm root i e elem_vector =
     (if i \<noteq> e
      then symbolic_loop fmtp nm root (i + 1) e
             (elem_vector @ [bv_const (leaf_name fmtp nm root i) 8])
      else elem_vector)"
  by pat_completeness auto
termination
  by (relation "measure (\<lambda>(fmtp, nm, root, i, e, elem_vector). unat (e - i))")
     (auto simp: unat_minus_one diff_diff_eq [symmetric] unat_gt_0)

text \<open>The vector that a cache miss builds for the array \<open>A\<close> held at \<open>root\<close>.\<close>

definition make_leaves :: "(addr \<Rightarrow> string) \<Rightarrow> addr \<Rightarrow> Array \<Rightarrow> expr list option" where
  "make_leaves fmtp root A =
     (if isConstantArray A
      then constant_loop (constantValues A) 0 (size_a A) []
      else Some (symbolic_loop fmtp (name A) root 0 (size_a A) []))"

text \<open>
  A cached vector is returned before \<open>root\<close> is dereferenced; on a miss the array is read
  from memory (a dangling \<open>root\<close> is undefined: \<open>None\<close>), the vector is built and inserted.
\<close>

definition getArrayValues ::
  "(addr \<Rightarrow> string) \<Rightarrow> 'e memory \<Rightarrow> addr \<Rightarrow> builder \<Rightarrow> (expr list \<times> builder) option" where
  "getArrayValues fmtp H root s =
     (case array_variables s root of
        Some elem_vector \<Rightarrow> Some (elem_vector, s)
      | None \<Rightarrow>
          (case arrays H root of
             None \<Rightarrow> None
           | Some A \<Rightarrow>
               (case make_leaves fmtp root A of
                  None \<Rightarrow> None
                | Some elem_vector \<Rightarrow>
                    Some (elem_vector,
                          s\<lparr>array_variables :=
                              map_insert (array_variables s) root elem_vector\<rparr>))))"

declare constant_loop.simps [simp del] symbolic_loop.simps [simp del] dec.simps [simp del]

subsection \<open>\<^verbatim>\<open>Z3IteBuilder::getInitialRead\<close>\<close>

definition getInitialRead ::
  "(addr \<Rightarrow> string) \<Rightarrow> 'e memory \<Rightarrow> addr \<Rightarrow> 32 word \<Rightarrow> builder \<Rightarrow> (expr \<times> builder) option" where
  "getInitialRead fmtp H root i s =
     (case getArrayValues fmtp H root s of
        None \<Rightarrow> None
      | Some (elem_vector, s1) \<Rightarrow>
          if unat i < length elem_vector then Some (elem_vector ! unat i, s1) else None)"

subsection \<open>\<^verbatim>\<open>Z3IteBuilder::getReadForInitialArray\<close>\<close>

text \<open>
  The loop that wraps the tree built so far in one more conditional per offset, from
  offset 0 upwards. Reading \<^verbatim>\<open>(*elem_vector)[i]\<close> past the end is undefined in
  the source and \<open>None\<close> here.
\<close>

function ite_loop :: "expr \<Rightarrow> expr list \<Rightarrow> 32 word \<Rightarrow> 32 word \<Rightarrow> expr \<Rightarrow> expr option" where
  "ite_loop index elem_vector i e ite_tree =
     (if i \<noteq> e
      then (if unat i < length elem_vector
            then ite_loop index elem_vector (i + 1) e
                   (Ite (Eq index (bv_val i 32)) (elem_vector ! unat i) ite_tree)
            else None)
      else Some ite_tree)"
  by pat_completeness auto
termination
  by (relation "measure (\<lambda>(index, elem_vector, i, e, ite_tree). unat (e - i))")
     (auto simp: unat_minus_one diff_diff_eq [symmetric] unat_gt_0)

declare ite_loop.simps [simp del]

definition getReadForInitialArray ::
  "(addr \<Rightarrow> string) \<Rightarrow> 'e memory \<Rightarrow> expr \<Rightarrow> addr \<Rightarrow> builder \<Rightarrow> (expr \<times> builder) option" where
  "getReadForInitialArray fmtp H index root s =
     (case getArrayValues fmtp H root s of
        None \<Rightarrow> None
      | Some (elem_vector, s1) \<Rightarrow>
          (case arrays H root of
             None \<Rightarrow> None
           | Some A \<Rightarrow>
               (case ite_loop index elem_vector 0 (size_a A) (bv_val 0 8) of
                  None \<Rightarrow> None
                | Some ite_tree \<Rightarrow> Some (ite_tree, s1))))"

subsection \<open>\<^verbatim>\<open>Z3IteBuilder::getReadForArray\<close>\<close>

text \<open>
  \<^verbatim>\<open>getOrMakeExpr\<close>, the translation of the engine's expressions into solver terms, is
  a member of the base class and not part of this file; it is the parameter \<open>tr\<close>, a
  function of the expression alone: what the base class does to the builder while it
  translates is outside this model.
  The recursion follows the \<^verbatim>\<open>next\<close> pointers through memory, so it need not end:
  the result is \<open>None\<close> when the call does not return or runs into undefined behaviour
  (a dangling node pointer).
\<close>

definition store_read ::
  "expr \<times> addr \<times> addr option \<Rightarrow> expr \<Rightarrow> builder \<Rightarrow> expr \<times> builder" where
  "store_read k result s = (result, s\<lparr>read_map := map_insert (read_map s) k result\<rparr>)"

partial_function (option) getReadForArray ::
  "(addr \<Rightarrow> string) \<Rightarrow> ('e \<Rightarrow> expr) \<Rightarrow> 'e memory \<Rightarrow> expr \<Rightarrow> addr \<Rightarrow> addr option \<Rightarrow> builder
     \<Rightarrow> (expr \<times> builder) option" where
  "getReadForArray fmtp tr H index root un s =
     (case read_map s (index, root, un) of
        Some cached \<Rightarrow> Some (cached, s)
      | None \<Rightarrow>
          (case un of
             None \<Rightarrow>
               (case getReadForInitialArray fmtp H index root s of
                  None \<Rightarrow> None
                | Some (result, s1) \<Rightarrow> Some (store_read (index, root, un) result s1))
           | Some a \<Rightarrow>
               (case nodes H a of
                  None \<Rightarrow> None
                | Some n \<Rightarrow>
                    Option.bind (getReadForArray fmtp tr H index root (next_un n) s)
                      (\<lambda>(older, s1).
                         Some (store_read (index, root, un)
                                 (Ite (Eq index (tr (index_un n))) (tr (value_un n)) older)
                                 s1)))))"

subsection \<open>\<^verbatim>\<open>Z3IteBuilder::makeReadExpr\<close>\<close>

text \<open>A read expression: its index, the array it reads and the head of its update chain.\<close>

record 'e ReadExpr =
  index_re :: 'e
  root_re :: addr
  head_re :: "addr option"

definition makeReadExpr ::
  "(addr \<Rightarrow> string) \<Rightarrow> ('e \<Rightarrow> expr) \<Rightarrow> 'e memory \<Rightarrow> 'e ReadExpr \<Rightarrow> builder
     \<Rightarrow> (expr \<times> builder) option" where
  "makeReadExpr fmtp tr H re s =
     getReadForArray fmtp tr H (tr (index_re re)) (root_re re) (head_re re) s"

section \<open>What a call is expected to return\<close>

text \<open>
  The tree of the base-array loop after \<open>k\<close> rounds, written by recursion on \<open>k\<close>:
  round \<open>k\<close> puts the test of offset \<open>k\<close> on top of the tree of the rounds before it.
\<close>

primrec ite_chain :: "expr \<Rightarrow> expr list \<Rightarrow> nat \<Rightarrow> expr" where
  "ite_chain index elem_vector 0 = bv_val 0 8"
| "ite_chain index elem_vector (Suc k) =
     Ite (Eq index (bv_val (of_nat k) 32)) (elem_vector ! k) (ite_chain index elem_vector k)"

text \<open>The conditions met on the way down the else-branches of a tree, outermost first.\<close>

fun else_conditions :: "expr \<Rightarrow> expr list" where
  "else_conditions (Ite c t e) = c # else_conditions e"
| "else_conditions x = []"

text \<open>The term at the end of the else-branches of a tree.\<close>

fun innermost_default :: "expr \<Rightarrow> expr" where
  "innermost_default (Ite c t e) = innermost_default e"
| "innermost_default x = x"

text \<open>
  \<open>chain H un ns\<close>: following the \<^verbatim>\<open>next\<close> pointers from \<open>un\<close> through the memory
  \<open>H\<close> visits exactly the nodes \<open>ns\<close>, newest first, and then reaches the null pointer.
\<close>

primrec chain :: "'e memory \<Rightarrow> addr option \<Rightarrow> 'e UpdateNode list \<Rightarrow> bool" where
  "chain H un [] = (un = None)"
| "chain H un (n # ns) =
     (case un of None \<Rightarrow> False | Some a \<Rightarrow> nodes H a = Some n \<and> chain H (next_un n) ns)"

text \<open>One conditional per update node, newest outermost, around the base-array read.\<close>

primrec update_tree :: "('e \<Rightarrow> expr) \<Rightarrow> expr \<Rightarrow> 'e UpdateNode list \<Rightarrow> expr \<Rightarrow> expr" where
  "update_tree tr index [] base = base"
| "update_tree tr index (n # ns) base =
     Ite (Eq index (tr (index_un n))) (tr (value_un n)) (update_tree tr index ns base)"

text \<open>The base-array read that a builder with empty caches computes.\<close>

definition base_read :: "(addr \<Rightarrow> string) \<Rightarrow> 'e memory \<Rightarrow> expr \<Rightarrow> addr \<Rightarrow> expr option" where
  "base_read fmtp H index root =
     (case arrays H root of
        None \<Rightarrow> None
      | Some A \<Rightarrow>
          (case make_leaves fmtp root A of
             None \<Rightarrow> None
           | Some elem_vector \<Rightarrow> ite_loop index elem_vector 0 (size_a A) (bv_val 0 8)))"

text \<open>
  The invariant of the two caches: a cached leaf vector is the one built for the array at
  that address, and a cached read is the tree of its key's update chain over the base read.
\<close>

definition arrays_ok :: "(addr \<Rightarrow> string) \<Rightarrow> 'e memory \<Rightarrow> builder \<Rightarrow> bool" where
  "arrays_ok fmtp H s =
     (\<forall>root ev. array_variables s root = Some ev \<longrightarrow>
        (\<exists>A. arrays H root = Some A \<and> make_leaves fmtp root A = Some ev))"

definition reads_ok :: "(addr \<Rightarrow> string) \<Rightarrow> ('e \<Rightarrow> expr) \<Rightarrow> 'e memory \<Rightarrow> builder \<Rightarrow> bool" where
  "reads_ok fmtp tr H s =
     (\<forall>index root un r. read_map s (index, root, un) = Some r \<longrightarrow>
        (\<exists>ns b. chain H un ns \<and> base_read fmtp H index root = Some b
                \<and> r = update_tree tr index ns b))"

definition cache_ok :: "(addr \<Rightarrow> string) \<Rightarrow> ('e \<Rightarrow> expr) \<Rightarrow> 'e memory \<Rightarrow> builder \<Rightarrow> bool" where
  "cache_ok fmtp tr H s = (arrays_ok fmtp H s \<and> reads_ok fmtp tr H s)"

subsection \<open>Sequences of calls\<close>

datatype 'e call =
    GetArrayValues addr
  | GetInitialRead addr "32 word"
  | GetReadForArray expr addr "addr option"
  | MakeReadExpr "'e ReadExpr"

fun do_call ::
  "(addr \<Rightarrow> string) \<Rightarrow> ('e \<Rightarrow> expr) \<Rightarrow> 'e memory \<Rightarrow> 'e call \<Rightarrow> builder \<Rightarrow> builder option" where
  "do_call fmtp tr H (GetArrayValues root) s = map_option snd (getArrayValues fmtp H root s)"
| "do_call fmtp tr H (GetInitialRead root i) s = map_option snd (getInitialRead fmtp H root i s)"
| "do_call fmtp tr H (GetReadForArray index root un) s =
     map_option snd (getReadForArray fmtp tr H index root un s)"
| "do_call fmtp tr H (MakeReadExpr re) s = map_option snd (makeReadExpr fmtp tr H re s)"

primrec do_calls ::
  "(addr \<Rightarrow> string) \<Rightarrow> ('e \<Rightarrow> expr) \<Rightarrow> 'e memory \<Rightarrow> 'e call list \<Rightarrow> builder \<Rightarrow> builder option" where
  "do_calls fmtp tr H [] s = Some s"
| "do_calls fmtp tr H (c # cs) s =
     (case do_call fmtp tr H c s of None \<Rightarrow> None | Some s1 \<Rightarrow> do_calls fmtp tr H cs s1)"

subsection \<open>The base-array read as the specification words it\<close>

text \<open>
  The specification's fold: the last offset's leaf is the innermost default, and the offsets
  from the last down to the first wrap it, so that offset 0 is tested outermost.
\<close>

definition spec_base_chain :: "expr \<Rightarrow> expr list \<Rightarrow> expr" where
  "spec_base_chain index leaf =
     foldr (\<lambda>k acc. Ite (Eq index (bv_val (of_nat k) 32)) (leaf ! k) acc)
       [0..<length leaf] (last leaf)"

subsection \<open>A small memory for concrete runs\<close>

text \<open>
  How the GNU C library prints an address with \<^verbatim>\<open>%p\<close>: \<^verbatim>\<open>(nil)\<close> for the null
  pointer, otherwise \<^verbatim>\<open>0x\<close> and the address in lower-case hexadecimal.
\<close>

definition hex_digit :: "nat \<Rightarrow> char" where
  "hex_digit d = ''0123456789abcdef'' ! d"

fun hex :: "nat \<Rightarrow> string" where
  "hex n = (if n < 16 then [hex_digit n] else hex (n div 16) @ [hex_digit (n mod 16)])"

declare hex.simps [simp del]

definition fmt_addr :: "addr \<Rightarrow> string" where
  "fmt_addr a = (if a = 0 then ''(nil)'' else ''0x'' @ hex a)"

definition demo_memory :: "expr memory" where
  "demo_memory =
     \<lparr>arrays =
        [100 \<mapsto> \<lparr>name = ''A'', size_a = 4, isConstantArray = True,
                  constantValues = [10, 20, 30, 40]\<rparr>,
         200 \<mapsto> \<lparr>name = ''sym'', size_a = 2, isConstantArray = False, constantValues = []\<rparr>,
         300 \<mapsto> \<lparr>name = ''one'', size_a = 1, isConstantArray = True, constantValues = [7]\<rparr>,
         400 \<mapsto> \<lparr>name = ''none'', size_a = 0, isConstantArray = False, constantValues = []\<rparr>,
         500 \<mapsto> \<lparr>name = ''B'', size_a = 2, isConstantArray = True,
                  constantValues = [10, 20]\<rparr>],
      nodes =
        [1 \<mapsto> \<lparr>index_un = BvVal 2 32, value_un = BvVal 99 8, next_un = None\<rparr>,
         2 \<mapsto> \<lparr>index_un = BvConst ''j'' 32, value_un = BvConst ''w'' 8, next_un = Some 1\<rparr>]\<rparr>"


definition empty_memory :: "expr memory" where
  "empty_memory = \<lparr>arrays = Map.empty, nodes = Map.empty\<rparr>"

definition demo_env :: "string \<Rightarrow> nat \<Rightarrow> nat" where
  "demo_env nm w = (if nm = ''x'' then 5 else if nm = ''j'' then 3 else if nm = ''w'' then 77 else 0)"

section \<open>The loops\<close>

lemma unat_next: "i \<noteq> e \<Longrightarrow> unat i \<le> unat e \<Longrightarrow> unat (i + 1) = Suc (unat i)"
  for i e :: "32 word"
proof -
  assume a: "i \<noteq> e" "unat i \<le> unat e"
  then have "unat i < unat e" by (simp add: word_unat_eq_iff)
  moreover have "unat e < 2 ^ 32" using unsigned_less [of e] by simp
  ultimately have "unat i + 1 < 2 ^ 32" by simp
  then show ?thesis by (simp add: unat_word_ariths)
qed

lemma ite_loop_chain:
  "unat i \<le> unat e \<Longrightarrow> unat e \<le> length ev \<Longrightarrow>
   ite_loop idx ev i e (ite_chain idx ev (unat i)) = Some (ite_chain idx ev (unat e))"
proof (induction "unat e - unat i" arbitrary: i)
  case 0
  then have "i = e" by (simp add: word_unat_eq_iff)
  then show ?case by (simp add: ite_loop.simps)
next
  case (Suc d)
  then have ne: "i \<noteq> e" by auto
  have nx: "unat (i + 1) = Suc (unat i)" using unat_next [OF ne] Suc.prems by simp
  have lt: "unat i < length ev" using Suc by linarith
  have "ite_loop idx ev (i + 1) e (ite_chain idx ev (unat (i + 1))) = Some (ite_chain idx ev (unat e))"
    using Suc nx by (intro Suc.hyps(1)) auto
  then show ?case using ne lt nx by (subst ite_loop.simps) simp
qed

lemma ite_loop_from_zero:
  "unat e \<le> length ev \<Longrightarrow> ite_loop idx ev 0 e (bv_val 0 8) = Some (ite_chain idx ev (unat e))"
  using ite_loop_chain [of 0 e ev idx] by simp

lemma constant_loop_some:
  "unat i \<le> unat e \<Longrightarrow> unat e \<le> length cv \<Longrightarrow>
   constant_loop cv i e acc = Some (acc @ map (\<lambda>k. bv_val (ucast (cv ! k)) 8) [unat i..<unat e])"
proof (induction "unat e - unat i" arbitrary: i acc)
  case 0
  then have "i = e" by (simp add: word_unat_eq_iff)
  then show ?case by (simp add: constant_loop.simps)
next
  case (Suc d)
  then have ne: "i \<noteq> e" by auto
  have nx: "unat (i + 1) = Suc (unat i)" using unat_next [OF ne] Suc.prems by simp
  have lt: "unat i < length cv" "unat i < unat e" using Suc by linarith+
  have "constant_loop cv (i + 1) e (acc @ [bv_val (ucast (cv ! unat i)) 8])
        = Some ((acc @ [bv_val (ucast (cv ! unat i)) 8])
                @ map (\<lambda>k. bv_val (ucast (cv ! k)) 8) [unat (i + 1)..<unat e])"
    using Suc nx by (intro Suc.hyps(1)) auto
  then show ?case using ne lt nx by (subst constant_loop.simps) (simp add: upt_conv_Cons)
qed

lemma constant_loop_none:
  "unat i \<le> length cv \<Longrightarrow> length cv < unat e \<Longrightarrow> constant_loop cv i e acc = None"
proof (induction "length cv - unat i" arbitrary: i acc)
  case 0
  then have "unat i = length cv" by simp
  then have "i \<noteq> e" "\<not> unat i < length cv" using 0 by auto
  then show ?case by (subst constant_loop.simps) simp
next
  case (Suc d)
  then have ne: "i \<noteq> e" by auto
  have nx: "unat (i + 1) = Suc (unat i)" using unat_next [OF ne] Suc.prems Suc.hyps by simp
  have "constant_loop cv (i + 1) e (acc @ [bv_val (ucast (cv ! unat i)) 8]) = None"
    using Suc nx by (intro Suc.hyps(1)) auto
  then show ?case using ne by (subst constant_loop.simps) simp
qed

lemma symbolic_loop_eq:
  "unat i \<le> unat e \<Longrightarrow>
   symbolic_loop fmtp nm root i e acc
     = acc @ map (\<lambda>k. bv_const (leaf_name fmtp nm root (of_nat k)) 8) [unat i..<unat e]"
proof (induction "unat e - unat i" arbitrary: i acc)
  case 0
  then have "i = e" by (simp add: word_unat_eq_iff)
  then show ?case by (simp add: symbolic_loop.simps)
next
  case (Suc d)
  then have ne: "i \<noteq> e" by auto
  have nx: "unat (i + 1) = Suc (unat i)" using unat_next [OF ne] Suc.prems by simp
  have lt: "unat i < unat e" using Suc by linarith
  have "symbolic_loop fmtp nm root (i + 1) e (acc @ [bv_const (leaf_name fmtp nm root i) 8])
        = (acc @ [bv_const (leaf_name fmtp nm root i) 8])
          @ map (\<lambda>k. bv_const (leaf_name fmtp nm root (of_nat k)) 8) [unat (i + 1)..<unat e]"
    using Suc nx by (intro Suc.hyps(1)) auto
  then show ?case using ne lt nx by (subst symbolic_loop.simps) (simp add: upt_conv_Cons)
qed

lemma make_leaves_eq:
  "make_leaves fmtp root A =
     (if isConstantArray A
      then (if unat (size_a A) \<le> length (constantValues A)
            then Some (map (\<lambda>k. bv_val (ucast (constantValues A ! k)) 8) [0..<unat (size_a A)])
            else None)
      else Some (map (\<lambda>k. bv_const (leaf_name fmtp (name A) root (of_nat k)) 8)
                   [0..<unat (size_a A)]))"
  using constant_loop_some [of 0 "size_a A" "constantValues A" "[]"]
        constant_loop_none [of 0 "constantValues A" "size_a A" "[]"]
        symbolic_loop_eq [of 0 "size_a A" fmtp "name A" root "[]"]
  by (simp add: make_leaves_def)

lemma make_leaves_length:
  "make_leaves fmtp root A = Some ev \<Longrightarrow> length ev = unat (size_a A)"
  by (auto simp: make_leaves_eq split: if_splits)

lemma make_leaves_nth:
  "make_leaves fmtp root A = Some ev \<Longrightarrow> k < unat (size_a A) \<Longrightarrow>
   ev ! k = (if isConstantArray A then bv_val (ucast (constantValues A ! k)) 8
             else bv_const (leaf_name fmtp (name A) root (of_nat k)) 8)"
  by (auto simp: make_leaves_eq split: if_splits)

lemma base_read_eq:
  "arrays H root = Some A \<Longrightarrow> make_leaves fmtp root A = Some ev \<Longrightarrow>
   base_read fmtp H idx root = Some (ite_chain idx ev (unat (size_a A)))"
  by (simp add: base_read_def ite_loop_from_zero make_leaves_length)

lemma base_read_SomeD:
  "base_read fmtp H idx root = Some b \<Longrightarrow>
   \<exists>A ev. arrays H root = Some A \<and> make_leaves fmtp root A = Some ev
        \<and> b = ite_chain idx ev (unat (size_a A))"
  by (auto simp: base_read_def ite_loop_from_zero make_leaves_length split: option.splits)

section \<open>The caches\<close>

lemma map_insert_le: "m \<subseteq>\<^sub>m map_insert m k v"
  by (auto simp: map_insert_def map_le_def split: option.splits)

lemma map_insert_same: "m k = Some v \<Longrightarrow> map_insert m k v' = m"
  by (simp add: map_insert_def)

lemma map_insert_new: "m k = None \<Longrightarrow> map_insert m k v = m(k \<mapsto> v)"
  by (simp add: map_insert_def)

lemma map_insert_dom: "k \<in> dom (map_insert m k v)"
  by (auto simp: map_insert_def split: option.splits)

lemma getArrayValues_hit:
  "array_variables s root = Some ev \<Longrightarrow> getArrayValues fmtp H root s = Some (ev, s)"
  by (simp add: getArrayValues_def)

lemma getArrayValues_miss:
  "array_variables s root = None \<Longrightarrow> arrays H root = Some A \<Longrightarrow>
   make_leaves fmtp root A = Some ev \<Longrightarrow>
   getArrayValues fmtp H root s = Some (ev, s\<lparr>array_variables := (array_variables s)(root \<mapsto> ev)\<rparr>)"
  by (simp add: getArrayValues_def map_insert_def)

lemma getArrayValues_grows:
  "getArrayValues fmtp H root s = Some (ev, s') \<Longrightarrow>
   read_map s' = read_map s \<and> array_variables s \<subseteq>\<^sub>m array_variables s'
   \<and> array_variables s' root = Some ev"
  by (auto simp: getArrayValues_def map_insert_def map_le_def split: option.splits)

lemma getArrayValues_ok:
  assumes "arrays_ok fmtp H s" "arrays H root = Some A" "make_leaves fmtp root A = Some ev"
  shows "\<exists>s'. getArrayValues fmtp H root s = Some (ev, s') \<and> arrays_ok fmtp H s'
           \<and> read_map s' = read_map s \<and> array_variables s' root = Some ev
           \<and> array_variables s \<subseteq>\<^sub>m array_variables s'"
proof (cases "array_variables s root")
  case None
  have "arrays_ok fmtp H (s\<lparr>array_variables := (array_variables s)(root \<mapsto> ev)\<rparr>)"
    using assms by (auto simp: arrays_ok_def)
  then show ?thesis using getArrayValues_miss [OF None assms(2,3)] None
    by (auto simp: map_le_def)
next
  case (Some ev')
  then have "ev' = ev" using assms unfolding arrays_ok_def by fastforce
  then show ?thesis using Some assms(1) by (simp add: getArrayValues_hit)
qed

lemma getReadForInitialArray_ok:
  assumes "arrays_ok fmtp H s" "arrays H root = Some A" "make_leaves fmtp root A = Some ev"
  shows "\<exists>s'. getReadForInitialArray fmtp H idx root s
                = Some (ite_chain idx ev (unat (size_a A)), s')
           \<and> arrays_ok fmtp H s' \<and> read_map s' = read_map s
           \<and> array_variables s \<subseteq>\<^sub>m array_variables s'"
proof -
  obtain s' where s': "getArrayValues fmtp H root s = Some (ev, s')" "arrays_ok fmtp H s'"
      "read_map s' = read_map s" "array_variables s \<subseteq>\<^sub>m array_variables s'"
    using getArrayValues_ok [OF assms] by blast
  have "ite_loop idx ev 0 (size_a A) (bv_val 0 8) = Some (ite_chain idx ev (unat (size_a A)))"
    using make_leaves_length [OF assms(3)] by (simp add: ite_loop_from_zero)
  then show ?thesis using s' assms(2) by (simp add: getReadForInitialArray_def)
qed

lemma getReadForInitialArray_grows:
  "getReadForInitialArray fmtp H idx root s = Some (r, s') \<Longrightarrow>
   read_map s' = read_map s \<and> array_variables s \<subseteq>\<^sub>m array_variables s'"
  by (auto simp: getReadForInitialArray_def split: option.splits dest: getArrayValues_grows)

section \<open>Unfolding the resolver\<close>

lemma getReadForArray_hit:
  "read_map s (idx, root, un) = Some r \<Longrightarrow> getReadForArray fmtp tr H idx root un s = Some (r, s)"
  by (subst getReadForArray.simps) simp

lemma getReadForArray_base:
  "read_map s (idx, root, None) = None \<Longrightarrow>
   getReadForArray fmtp tr H idx root None s =
     (case getReadForInitialArray fmtp H idx root s of
        None \<Rightarrow> None
      | Some (result, s1) \<Rightarrow> Some (store_read (idx, root, None) result s1))"
  by (subst getReadForArray.simps) simp

lemma getReadForArray_node:
  "read_map s (idx, root, Some a) = None \<Longrightarrow> nodes H a = Some n \<Longrightarrow>
   getReadForArray fmtp tr H idx root (Some a) s =
     Option.bind (getReadForArray fmtp tr H idx root (next_un n) s)
       (\<lambda>(older, s1).
          Some (store_read (idx, root, Some a)
                  (Ite (Eq idx (tr (index_un n))) (tr (value_un n)) older) s1))"
  by (subst getReadForArray.simps) simp

lemma getReadForArray_dangling:
  "read_map s (idx, root, Some a) = None \<Longrightarrow> nodes H a = None \<Longrightarrow>
   getReadForArray fmtp tr H idx root (Some a) s = None"
  by (subst getReadForArray.simps) simp

lemma chain_unique: "chain H un ns \<Longrightarrow> chain H un ns' \<Longrightarrow> ns = ns'"
proof (induction ns arbitrary: un ns')
  case Nil
  then show ?case by (cases ns') auto
next
  case (Cons n ns)
  then show ?case by (cases ns') (auto split: option.splits)
qed

lemma store_read_ok:
  assumes "cache_ok fmtp tr H s" "chain H un ns" "base_read fmtp H idx root = Some b"
  shows "cache_ok fmtp tr H (snd (store_read (idx, root, un) (update_tree tr idx ns b) s))"
proof -
  let ?r = "update_tree tr idx ns b"
  let ?s' = "snd (store_read (idx, root, un) ?r s)"
  have av: "array_variables ?s' = array_variables s" by (simp add: store_read_def)
  have "reads_ok fmtp tr H ?s'"
    unfolding reads_ok_def
  proof (intro allI impI)
    fix index' root' un' r'
    assume lk: "read_map ?s' (index', root', un') = Some r'"
    show "\<exists>ns b. chain H un' ns \<and> base_read fmtp H index' root' = Some b
                 \<and> r' = update_tree tr index' ns b"
    proof (cases "read_map s (index', root', un') = Some r'")
      case True
      then show ?thesis using assms(1) unfolding cache_ok_def reads_ok_def by blast
    next
      case False
      then have "(index', root', un') = (idx, root, un) \<and> r' = ?r"
        using lk by (auto simp: store_read_def map_insert_def split: option.splits if_splits)
      then show ?thesis using assms(2,3) by blast
    qed
  qed
  moreover have "arrays_ok fmtp H ?s'"
    using assms(1) av by (simp add: cache_ok_def arrays_ok_def)
  ultimately show ?thesis by (simp add: cache_ok_def)
qed

lemma store_read_lookup:
  assumes "reads_ok fmtp tr H s" "chain H un ns" "base_read fmtp H idx root = Some b"
  shows "read_map (snd (store_read (idx, root, un) (update_tree tr idx ns b) s)) (idx, root, un)
           = Some (update_tree tr idx ns b)"
proof (cases "read_map s (idx, root, un)")
  case None
  then show ?thesis by (simp add: store_read_def map_insert_def)
next
  case (Some r)
  then obtain ns' b' where "chain H un ns'" "base_read fmtp H idx root = Some b'"
      "r = update_tree tr idx ns' b'"
    using assms(1) unfolding reads_ok_def by blast
  then have "r = update_tree tr idx ns b" using assms chain_unique by fastforce
  then show ?thesis using Some by (simp add: store_read_def map_insert_def)
qed

lemma store_read_grows:
  "read_map s \<subseteq>\<^sub>m read_map (snd (store_read k r s))"
  "array_variables (snd (store_read k r s)) = array_variables s"
  "fst (store_read k r s) = r"
  by (simp_all add: store_read_def map_insert_le)

lemma cached_read:
  assumes "reads_ok fmtp tr H s" "read_map s (idx, root, un) = Some r"
      "chain H un ns" "base_read fmtp H idx root = Some b"
  shows "r = update_tree tr idx ns b"
proof -
  obtain ns' b' where "chain H un ns'" "base_read fmtp H idx root = Some b'"
      "r = update_tree tr idx ns' b'"
    using assms(1,2) unfolding reads_ok_def by blast
  then show ?thesis using assms(3,4) chain_unique by fastforce
qed

lemma getReadForArray_cached:
  assumes "cache_ok fmtp tr H s" "read_map s (idx, root, un) = Some r"
      "chain H un ns" "base_read fmtp H idx root = Some b"
  shows "getReadForArray fmtp tr H idx root un s = Some (update_tree tr idx ns b, s)
         \<and> read_map s (idx, root, un) = Some (update_tree tr idx ns b)"
proof -
  have "r = update_tree tr idx ns b"
    using cached_read [OF _ assms(2,3,4)] assms(1) by (simp add: cache_ok_def)
  then show ?thesis using assms(2) getReadForArray_hit by fastforce
qed

lemma getReadForArray_stores:
  assumes "cache_ok fmtp tr H s1" "chain H un ns" "base_read fmtp H idx root = Some b"
      "read_map s \<subseteq>\<^sub>m read_map s1" "array_variables s \<subseteq>\<^sub>m array_variables s1"
      "getReadForArray fmtp tr H idx root un s
         = Some (store_read (idx, root, un) (update_tree tr idx ns b) s1)"
  shows "\<exists>s'. getReadForArray fmtp tr H idx root un s = Some (update_tree tr idx ns b, s')
           \<and> cache_ok fmtp tr H s'
           \<and> read_map s' (idx, root, un) = Some (update_tree tr idx ns b)
           \<and> read_map s \<subseteq>\<^sub>m read_map s'
           \<and> array_variables s \<subseteq>\<^sub>m array_variables s'"
proof -
  let ?r = "update_tree tr idx ns b"
  let ?s' = "snd (store_read (idx, root, un) ?r s1)"
  have 1: "getReadForArray fmtp tr H idx root un s = Some (?r, ?s')"
    using assms(6) by (simp add: store_read_def)
  have 2: "cache_ok fmtp tr H ?s'"
    using store_read_ok [OF assms(1,2,3)] .
  have "reads_ok fmtp tr H s1" using assms(1) by (simp add: cache_ok_def)
  then have 3: "read_map ?s' (idx, root, un) = Some ?r"
    by (rule store_read_lookup [OF _ assms(2,3)])
  have "read_map s1 \<subseteq>\<^sub>m read_map ?s'" by (rule store_read_grows(1))
  then have 4: "read_map s \<subseteq>\<^sub>m read_map ?s'" using assms(4) map_le_trans by blast
  have 5: "array_variables s \<subseteq>\<^sub>m array_variables ?s'"
    using assms(5) by (simp add: store_read_grows(2))
  show ?thesis using 1 2 3 4 5 by (intro exI [of _ ?s'] conjI)
qed

lemma getReadForArray_ok:
  assumes "cache_ok fmtp tr H s" "chain H un ns" "base_read fmtp H idx root = Some b"
  shows "\<exists>s'. getReadForArray fmtp tr H idx root un s = Some (update_tree tr idx ns b, s')
           \<and> cache_ok fmtp tr H s'
           \<and> read_map s' (idx, root, un) = Some (update_tree tr idx ns b)
           \<and> read_map s \<subseteq>\<^sub>m read_map s'
           \<and> array_variables s \<subseteq>\<^sub>m array_variables s'"
  using assms
proof (induction ns arbitrary: un s)
  case Nil
  then have un: "un = None" by simp
  show ?case
  proof (cases "read_map s (idx, root, un)")
    case (Some r)
    show ?thesis
      using getReadForArray_cached [OF Nil.prems(1) Some Nil.prems(2,3)] Nil.prems(1)
      by (intro exI [of _ s] conjI) simp_all
  next
    case None
    obtain A ev where A: "arrays H root = Some A" "make_leaves fmtp root A = Some ev"
        "b = ite_chain idx ev (unat (size_a A))"
      using base_read_SomeD [OF Nil.prems(3)] by blast
    have aok: "arrays_ok fmtp H s" using Nil.prems(1) by (simp add: cache_ok_def)
    obtain s1 where s1: "getReadForInitialArray fmtp H idx root s = Some (b, s1)"
        "arrays_ok fmtp H s1" "read_map s1 = read_map s"
        "array_variables s \<subseteq>\<^sub>m array_variables s1"
      using getReadForInitialArray_ok [OF aok A(1,2), of idx] A(3) by blast
    have ok1: "cache_ok fmtp tr H s1"
      using s1(2,3) Nil.prems(1) by (simp add: cache_ok_def reads_ok_def)
    have le: "read_map s \<subseteq>\<^sub>m read_map s1" using s1(3) by simp
    have "getReadForArray fmtp tr H idx root None s
            = Some (store_read (idx, root, None) (update_tree tr idx [] b) s1)"
      using None s1(1) unfolding un by (simp add: getReadForArray_base)
    then show ?thesis
      using getReadForArray_stores [OF ok1 Nil.prems(2,3) le s1(4)] unfolding un by simp
  qed
next
  case (Cons n ns)
  then obtain a where a: "un = Some a" "nodes H a = Some n" "chain H (next_un n) ns"
    by (auto split: option.splits)
  show ?case
  proof (cases "read_map s (idx, root, un)")
    case (Some r)
    show ?thesis
      using getReadForArray_cached [OF Cons.prems(1) Some Cons.prems(2,3)] Cons.prems(1)
      by (intro exI [of _ s] conjI) simp_all
  next
    case None
    obtain s1 where s1:
        "getReadForArray fmtp tr H idx root (next_un n) s = Some (update_tree tr idx ns b, s1)"
        "cache_ok fmtp tr H s1" "read_map s \<subseteq>\<^sub>m read_map s1"
        "array_variables s \<subseteq>\<^sub>m array_variables s1"
      using Cons.IH [OF Cons.prems(1) a(3) Cons.prems(3)] by blast
    have "getReadForArray fmtp tr H idx root (Some a) s
            = Some (store_read (idx, root, Some a) (update_tree tr idx (n # ns) b) s1)"
      using None s1(1) a(2) unfolding a(1) by (simp add: getReadForArray_node)
    then show ?thesis
      using getReadForArray_stores [OF s1(2) Cons.prems(2,3) s1(3,4)] unfolding a(1) by simp
  qed
qed

section \<open>Values of the trees\<close>

lemma eval_bv_val: "eval env (bv_val n sz) = Some (VBv sz (unat n mod 2 ^ sz))"
  by (simp add: bv_val_def)

lemma unat_lt32: "unat n < 4294967296" for n :: "32 word"
  using unsigned_less [of n, where 'a = nat] by simp

lemma eval_bv_val32: "eval env (bv_val n 32) = Some (VBv 32 (unat n))"
  using unat_lt32 [of n] by (simp add: bv_val_def)

lemma sort_of_bv_val: "sort_of (bv_val n sz) = Some (BvSort sz)"
  by (simp add: bv_val_def)

lemma leaf_value:
  assumes "make_leaves fmtp root A = Some ev" "k < unat (size_a A)"
  shows "eval env (ev ! k) =
           Some (VBv 8 (if isConstantArray A then unat (constantValues A ! k) mod 256
                        else env (leaf_name fmtp (name A) root (of_nat k)) 8 mod 256))"
proof -
  have "unat (ucast (constantValues A ! k) :: 32 word) mod 256 = unat (constantValues A ! k) mod 256"
  proof -
    have "unat (ucast (constantValues A ! k) :: 32 word) = unat (constantValues A ! k) mod 2 ^ 32"
      by (simp add: unsigned_ucast_eq take_bit_eq_mod)
    moreover have "(256::nat) dvd 2 ^ 32" by simp
    ultimately show ?thesis by (simp only: mod_mod_cancel)
  qed
  then show ?thesis
    using make_leaves_nth [OF assms] by (simp add: eval_bv_val bv_const_def)
qed

lemma leaf_sort:
  assumes "make_leaves fmtp root A = Some ev" "k < unat (size_a A)"
  shows "sort_of (ev ! k) = Some (BvSort 8)"
  using make_leaves_nth [OF assms] by (simp add: sort_of_bv_val bv_const_def)

lemma leaf_has_value:
  assumes "make_leaves fmtp root A = Some ev" "k < unat (size_a A)"
  shows "\<exists>x. eval env (ev ! k) = Some (VBv 8 x)"
  using leaf_value [OF assms] by simp

lemma eval_ite_chain:
  assumes "eval env idx = Some (VBv 32 k)"
      "\<And>j. j < n \<Longrightarrow> \<exists>x. eval env (ev ! j) = Some (VBv 8 x)"
      "n < 2 ^ 32"
  shows "eval env (ite_chain idx ev n) = (if k < n then eval env (ev ! k) else Some (VBv 8 0))"
  using assms(2,3)
proof (induction n)
  case 0
  then show ?case by (simp add: eval_bv_val)
next
  case (Suc n)
  have n: "unat (of_nat n :: 32 word) = n" using Suc.prems(2) by (simp add: unat_of_nat)
  obtain x where x: "eval env (ev ! n) = Some (VBv 8 x)" using Suc.prems(1) [of n] by auto
  have IH: "eval env (ite_chain idx ev n) = (if k < n then eval env (ev ! k) else Some (VBv 8 0))"
    using Suc by simp
  obtain y where y: "eval env (ite_chain idx ev n) = Some (VBv 8 y)"
    using IH Suc.prems(1) [of k] by (cases "k < n") auto
  show ?case
  proof (cases "k = n")
    case True
    then show ?thesis using assms(1) x y n by (simp add: eval_bv_val32)
  next
    case False
    then show ?thesis using assms(1) x y n IH by (auto simp: eval_bv_val32)
  qed
qed

lemma sort_of_ite_chain:
  assumes "\<And>j. j < n \<Longrightarrow> sort_of (ev ! j) = Some (BvSort 8)"
  shows "sort_of (ite_chain idx ev n) =
           (if n = 0 \<or> sort_of idx = Some (BvSort 32) then Some (BvSort 8) else None)"
  using assms
proof (induction n)
  case 0
  then show ?case by (simp add: sort_of_bv_val)
next
  case (Suc n)
  then have IH: "sort_of (ite_chain idx ev n) =
           (if n = 0 \<or> sort_of idx = Some (BvSort 32) then Some (BvSort 8) else None)"
    by simp
  have l: "sort_of (ev ! n) = Some (BvSort 8)" using Suc.prems by simp
  show ?case using IH l by (auto simp: sort_of_bv_val split: option.splits)
qed

lemma else_conditions_ite_chain:
  "else_conditions (ite_chain idx ev n)
     = map (\<lambda>k. Eq idx (bv_val (of_nat k) 32)) (rev [0..<n])"
  by (induction n) (simp_all add: bv_val_def)

lemma make_leaves_all_values:
  assumes "make_leaves fmtp root A = Some ev"
  shows "\<And>j. j < unat (size_a A) \<Longrightarrow> \<exists>x. eval env (ev ! j) = Some (VBv 8 x)"
  using leaf_has_value [OF assms] by blast

lemma base_chain_value:
  assumes "make_leaves fmtp root A = Some ev" "eval env idx = Some (VBv 32 k)"
  shows "eval env (ite_chain idx ev (unat (size_a A)))
           = (if k < unat (size_a A) then eval env (ev ! k) else Some (VBv 8 0))"
  using eval_ite_chain [OF assms(2), of "unat (size_a A)" ev] leaf_has_value [OF assms(1)]
        unat_lt32 [of "size_a A"]
  by simp

lemma cache_ok_new: "cache_ok fmtp tr H new_builder"
  by (simp add: cache_ok_def arrays_ok_def reads_ok_def new_builder_def)

lemma chain_Nil: "chain H None []"
  by simp

text \<open>
  C1 (as amended). For every well-formed array and the null update pointer, the resolved read
  is the chain that the loop builds upwards from offset 0: the 8-bit constant 0 is the
  innermost default, the test of offset 0 is innermost and the test of offset size-1 is
  outermost, each level being "if index = offset then leaf[offset] else the chain so far";
  when the index is a 32-bit value that equals no offset, the chain evaluates to 0.
\<close>

theorem base_read_is_upward_chain:
  assumes "cache_ok fmtp tr H s" "arrays H root = Some A" "make_leaves fmtp root A = Some ev"
  shows "(\<exists>s'. getReadForArray fmtp tr H idx root None s
                 = Some (ite_chain idx ev (unat (size_a A)), s'))
         \<and> (\<exists>s'. getReadForInitialArray fmtp H idx root s
                 = Some (ite_chain idx ev (unat (size_a A)), s'))
         \<and> else_conditions (ite_chain idx ev (unat (size_a A)))
             = map (\<lambda>k. Eq idx (bv_val (of_nat k) 32)) (rev [0..<unat (size_a A)])
         \<and> (eval env idx = Some (VBv 32 k) \<and> unat (size_a A) \<le> k \<longrightarrow>
              eval env (ite_chain idx ev (unat (size_a A))) = Some (VBv 8 0))"
proof -
  have b: "base_read fmtp H idx root = Some (ite_chain idx ev (unat (size_a A)))"
    using assms(2,3) by (rule base_read_eq)
  have 1: "\<exists>s'. getReadForArray fmtp tr H idx root None s
                 = Some (ite_chain idx ev (unat (size_a A)), s')"
    using getReadForArray_ok [OF assms(1) chain_Nil b] by auto
  have "arrays_ok fmtp H s" using assms(1) by (simp add: cache_ok_def)
  then have 2: "\<exists>s'. getReadForInitialArray fmtp H idx root s
                 = Some (ite_chain idx ev (unat (size_a A)), s')"
    using getReadForInitialArray_ok [OF _ assms(2,3), of s idx] by blast
  have 3: "eval env idx = Some (VBv 32 k) \<and> unat (size_a A) \<le> k \<longrightarrow>
              eval env (ite_chain idx ev (unat (size_a A))) = Some (VBv 8 0)"
    using base_chain_value [OF assms(3), of env idx k] by auto
  show ?thesis using 1 2 3 else_conditions_ite_chain by blast
qed

lemma demo_array_100:
  "arrays demo_memory 100 = Some \<lparr>name = ''A'', size_a = 4, isConstantArray = True,
                  constantValues = [10, 20, 30, 40]\<rparr>"
  by (simp add: demo_memory_def)

lemma demo_leaves_100:
  "make_leaves fmt_addr 100 \<lparr>name = ''A'', size_a = 4, isConstantArray = True,
                  constantValues = [10, 20, 30, 40]\<rparr>
     = Some [BvVal 10 8, BvVal 20 8, BvVal 30 8, BvVal 40 8]"
  by (simp add: make_leaves_def constant_loop.simps bv_val_def)

lemma ite_chain_numeral:
  "ite_chain idx ev (numeral n) =
     Ite (Eq idx (bv_val (of_nat (pred_numeral n)) 32)) (ev ! pred_numeral n)
       (ite_chain idx ev (pred_numeral n))"
  by (simp add: numeral_eq_Suc)

lemma ite_chain_1:
  "ite_chain idx ev (Suc 0) = Ite (Eq idx (BvVal 0 32)) (ev ! 0) (BvVal 0 8)"
  by (simp add: bv_val_def)

theorem base_read_is_upward_chain_witness:
  "(\<exists>s'. getReadForArray fmt_addr id demo_memory (BvConst ''x'' 32) 100 None new_builder
           = Some (Ite (Eq (BvConst ''x'' 32) (BvVal 3 32)) (BvVal 40 8)
                    (Ite (Eq (BvConst ''x'' 32) (BvVal 2 32)) (BvVal 30 8)
                      (Ite (Eq (BvConst ''x'' 32) (BvVal 1 32)) (BvVal 20 8)
                        (Ite (Eq (BvConst ''x'' 32) (BvVal 0 32)) (BvVal 10 8) (BvVal 0 8)))), s'))
   \<and> eval demo_env
        (Ite (Eq (BvConst ''x'' 32) (BvVal 3 32)) (BvVal 40 8)
          (Ite (Eq (BvConst ''x'' 32) (BvVal 2 32)) (BvVal 30 8)
            (Ite (Eq (BvConst ''x'' 32) (BvVal 1 32)) (BvVal 20 8)
              (Ite (Eq (BvConst ''x'' 32) (BvVal 0 32)) (BvVal 10 8) (BvVal 0 8)))))
       = Some (VBv 8 0)"
proof -
  have e: "eval demo_env (BvConst ''x'' 32) = Some (VBv 32 5)" by (simp add: demo_env_def)
  show ?thesis
    using base_read_is_upward_chain [where tr = id and s = new_builder
            and idx = "BvConst ''x'' 32" and env = demo_env and k = 5,
            OF cache_ok_new demo_array_100 demo_leaves_100] e
    by (simp add: ite_chain_numeral ite_chain_1 bv_val_def)
qed

text \<open>
  C1 (as stated) fails: for the constant array [10, 20] the specification's chain tests offset 0
  outermost and ends in the last leaf, the code's chain tests offset 1 outermost and ends in
  the constant 0, and at index 5 the two evaluate to 20 and to 0.
\<close>

theorem base_read_spec_chain_counterexample:
  "map_option fst
     (getReadForInitialArray fmt_addr demo_memory (BvConst ''x'' 32) 500 new_builder)
     = Some (Ite (Eq (BvConst ''x'' 32) (BvVal 1 32)) (BvVal 20 8)
              (Ite (Eq (BvConst ''x'' 32) (BvVal 0 32)) (BvVal 10 8) (BvVal 0 8)))
   \<and> map_option fst (getArrayValues fmt_addr demo_memory 500 new_builder)
     = Some [BvVal 10 8, BvVal 20 8]
   \<and> spec_base_chain (BvConst ''x'' 32) [BvVal 10 8, BvVal 20 8]
     = Ite (Eq (BvConst ''x'' 32) (BvVal 0 32)) (BvVal 10 8)
         (Ite (Eq (BvConst ''x'' 32) (BvVal 1 32)) (BvVal 20 8) (BvVal 20 8))
   \<and> eval demo_env (Ite (Eq (BvConst ''x'' 32) (BvVal 1 32)) (BvVal 20 8)
              (Ite (Eq (BvConst ''x'' 32) (BvVal 0 32)) (BvVal 10 8) (BvVal 0 8)))
     = Some (VBv 8 0)
   \<and> eval demo_env (spec_base_chain (BvConst ''x'' 32) [BvVal 10 8, BvVal 20 8])
     = Some (VBv 8 20)"
  by (simp add: getReadForInitialArray_def getArrayValues_def make_leaves_def
        constant_loop.simps ite_loop.simps new_builder_def map_insert_def bv_val_def
        spec_base_chain_def upt_rec demo_env_def demo_memory_def)

section \<open>Every returning call keeps the caches growing and consistent\<close>

lemma getReadForArray_grows:
  assumes "getReadForArray fmtp tr H idx root un s = Some y"
  shows "read_map s \<subseteq>\<^sub>m read_map (snd y) \<and> array_variables s \<subseteq>\<^sub>m array_variables (snd y)"
proof (rule getReadForArray.raw_induct
    [where P = "\<lambda>fmtp tr H idx root un s y.
        read_map s \<subseteq>\<^sub>m read_map (snd y) \<and> array_variables s \<subseteq>\<^sub>m array_variables (snd y)",
     OF _ assms])
  fix rec :: "(addr \<Rightarrow> string) \<Rightarrow> ('a \<Rightarrow> expr) \<Rightarrow> 'a memory \<Rightarrow> expr \<Rightarrow> addr \<Rightarrow> addr option
                \<Rightarrow> builder \<Rightarrow> (expr \<times> builder) option"
    and fmtp tr H idx root un s y
  assume IH: "\<And>fmtp tr H idx root un s y. rec fmtp tr H idx root un s = Some y \<Longrightarrow>
      read_map s \<subseteq>\<^sub>m read_map (snd y) \<and> array_variables s \<subseteq>\<^sub>m array_variables (snd y)"
  assume body: "(case read_map s (idx, root, un) of
      None \<Rightarrow>
        (case un of
           None \<Rightarrow>
             (case getReadForInitialArray fmtp H idx root s of
                None \<Rightarrow> None
              | Some (result, s1) \<Rightarrow> Some (store_read (idx, root, un) result s1))
         | Some a \<Rightarrow>
             (case nodes H a of
                None \<Rightarrow> None
              | Some n \<Rightarrow>
                  Option.bind (rec fmtp tr H idx root (next_un n) s)
                    (\<lambda>(older, s1).
                       Some (store_read (idx, root, un)
                               (Ite (Eq idx (tr (index_un n))) (tr (value_un n)) older) s1))))
    | Some cached \<Rightarrow> Some (cached, s)) = Some y"
  show "read_map s \<subseteq>\<^sub>m read_map (snd y) \<and> array_variables s \<subseteq>\<^sub>m array_variables (snd y)"
  proof (cases "read_map s (idx, root, un)")
    case (Some r)
    then have "y = (r, s)" using body by simp
    then show ?thesis by simp
  next
    case None
    note miss = None
    show ?thesis
    proof (cases un)
      case None
      then obtain result s1 where r: "getReadForInitialArray fmtp H idx root s = Some (result, s1)"
          "y = store_read (idx, root, un) result s1"
        using body miss by (auto split: option.splits)
      have "read_map s1 = read_map s" "array_variables s \<subseteq>\<^sub>m array_variables s1"
        using getReadForInitialArray_grows [OF r(1)] by auto
      then show ?thesis using r(2) store_read_grows(1) [of s1] store_read_grows(2) [of _ _ s1]
        by simp
    next
      case (Some a)
      then obtain n older s1 where r: "nodes H a = Some n"
          "rec fmtp tr H idx root (next_un n) s = Some (older, s1)"
          "y = store_read (idx, root, un)
                 (Ite (Eq idx (tr (index_un n))) (tr (value_un n)) older) s1"
        using body miss by (auto split: option.splits Option.bind_splits)
      have "read_map s \<subseteq>\<^sub>m read_map s1" "array_variables s \<subseteq>\<^sub>m array_variables s1"
        using IH [OF r(2)] by auto
      moreover have "read_map s1 \<subseteq>\<^sub>m read_map (snd y)" "array_variables (snd y) = array_variables s1"
        using r(3) by (simp_all add: store_read_grows)
      ultimately show ?thesis using map_le_trans by metis
    qed
  qed
qed

lemma getReadForInitialArray_sound:
  assumes "arrays_ok fmtp H s" "getReadForInitialArray fmtp H idx root s = Some (r, s')"
  shows "base_read fmtp H idx root = Some r \<and> arrays_ok fmtp H s' \<and> read_map s' = read_map s"
proof -
  obtain ev A where g: "getArrayValues fmtp H root s = Some (ev, s')" "arrays H root = Some A"
      "ite_loop idx ev 0 (size_a A) (bv_val 0 8) = Some r"
    using assms(2) by (auto simp: getReadForInitialArray_def split: option.splits)
  have ml: "make_leaves fmtp root A = Some ev"
  proof (cases "array_variables s root")
    case None
    then show ?thesis using g(1,2) by (auto simp: getArrayValues_def split: option.splits)
  next
    case (Some ev')
    then have "ev' = ev" using g(1) by (simp add: getArrayValues_def)
    then show ?thesis using Some assms(1) g(2) unfolding arrays_ok_def by fastforce
  qed
  obtain s2 where "getArrayValues fmtp H root s = Some (ev, s2)" "arrays_ok fmtp H s2"
      "read_map s2 = read_map s"
    using getArrayValues_ok [OF assms(1) g(2) ml] by blast
  then have "arrays_ok fmtp H s'" "read_map s' = read_map s" using g(1) by auto
  moreover have "base_read fmtp H idx root = Some r"
    using g(2,3) ml by (simp add: base_read_def)
  ultimately show ?thesis by simp
qed


lemma getReadForArray_sound:
  assumes "getReadForArray fmtp tr H idx root un s = Some y" "cache_ok fmtp tr H s"
  shows "cache_ok fmtp tr H (snd y)
         \<and> (\<exists>ns b. chain H un ns \<and> base_read fmtp H idx root = Some b
                    \<and> fst y = update_tree tr idx ns b)"
proof -
  have "cache_ok fmtp tr H s \<longrightarrow>
          cache_ok fmtp tr H (snd y)
          \<and> (\<exists>ns b. chain H un ns \<and> base_read fmtp H idx root = Some b
                     \<and> fst y = update_tree tr idx ns b)"
  proof (rule getReadForArray.raw_induct
      [where P = "\<lambda>fmtp tr H idx root un s y.
          cache_ok fmtp tr H s \<longrightarrow>
            cache_ok fmtp tr H (snd y)
            \<and> (\<exists>ns b. chain H un ns \<and> base_read fmtp H idx root = Some b
                       \<and> fst y = update_tree tr idx ns b)",
       OF _ assms(1)])
    fix rec :: "(addr \<Rightarrow> string) \<Rightarrow> ('a \<Rightarrow> expr) \<Rightarrow> 'a memory \<Rightarrow> expr \<Rightarrow> addr \<Rightarrow> addr option
                  \<Rightarrow> builder \<Rightarrow> (expr \<times> builder) option"
      and fmtp tr H idx root un s y
    assume IH: "\<And>fmtp tr H idx root un s y. rec fmtp tr H idx root un s = Some y \<Longrightarrow>
        cache_ok fmtp tr H s \<longrightarrow>
          cache_ok fmtp tr H (snd y)
          \<and> (\<exists>ns b. chain H un ns \<and> base_read fmtp H idx root = Some b
                     \<and> fst y = update_tree tr idx ns b)"
    assume body: "(case read_map s (idx, root, un) of
        None \<Rightarrow>
          (case un of
             None \<Rightarrow>
               (case getReadForInitialArray fmtp H idx root s of
                  None \<Rightarrow> None
                | Some (result, s1) \<Rightarrow> Some (store_read (idx, root, un) result s1))
           | Some a \<Rightarrow>
               (case nodes H a of
                  None \<Rightarrow> None
                | Some n \<Rightarrow>
                    Option.bind (rec fmtp tr H idx root (next_un n) s)
                      (\<lambda>(older, s1).
                         Some (store_read (idx, root, un)
                                 (Ite (Eq idx (tr (index_un n))) (tr (value_un n)) older) s1))))
      | Some cached \<Rightarrow> Some (cached, s)) = Some y"
    show "cache_ok fmtp tr H s \<longrightarrow>
          cache_ok fmtp tr H (snd y)
          \<and> (\<exists>ns b. chain H un ns \<and> base_read fmtp H idx root = Some b
                     \<and> fst y = update_tree tr idx ns b)"
    proof
      assume ok: "cache_ok fmtp tr H s"
      show "cache_ok fmtp tr H (snd y)
          \<and> (\<exists>ns b. chain H un ns \<and> base_read fmtp H idx root = Some b
                     \<and> fst y = update_tree tr idx ns b)"
      proof (cases "read_map s (idx, root, un)")
        case (Some r)
        then have y: "y = (r, s)" using body by simp
        have "\<exists>ns b. chain H un ns \<and> base_read fmtp H idx root = Some b
                \<and> r = update_tree tr idx ns b"
          using Some ok unfolding cache_ok_def reads_ok_def by blast
        then show ?thesis using y ok by simp
      next
        case None
        note miss = None
        show ?thesis
        proof (cases un)
          case None
          then obtain result s1 where
              r: "getReadForInitialArray fmtp H idx root s = Some (result, s1)"
              "y = store_read (idx, root, un) result s1"
            using body miss by (auto split: option.splits)
          have aok: "arrays_ok fmtp H s" using ok by (simp add: cache_ok_def)
          have b: "base_read fmtp H idx root = Some result" "arrays_ok fmtp H s1"
              "read_map s1 = read_map s"
            using getReadForInitialArray_sound [OF aok r(1)] by auto
          have ok1: "cache_ok fmtp tr H s1"
            using b(2,3) ok by (simp add: cache_ok_def reads_ok_def)
          have ch: "chain H un []" using None by simp
          have "cache_ok fmtp tr H
                  (snd (store_read (idx, root, un) (update_tree tr idx [] result) s1))"
            by (rule store_read_ok [OF ok1 ch b(1)])
          then have "cache_ok fmtp tr H (snd y)" using r(2) by simp
          moreover have "fst y = update_tree tr idx [] result"
            using r(2) by (simp add: store_read_def)
          ultimately show ?thesis using ch b(1) by blast
        next
          case (Some a)
          then obtain n older s1 where r: "nodes H a = Some n"
              "rec fmtp tr H idx root (next_un n) s = Some (older, s1)"
              "y = store_read (idx, root, un)
                     (Ite (Eq idx (tr (index_un n))) (tr (value_un n)) older) s1"
            using body miss by (auto split: option.splits Option.bind_splits)
          obtain ns b where ih: "cache_ok fmtp tr H s1" "chain H (next_un n) ns"
              "base_read fmtp H idx root = Some b" "older = update_tree tr idx ns b"
            using IH [OF r(2)] ok by auto
          have ch: "chain H un (n # ns)" using Some r(1) ih(2) by simp
          have "cache_ok fmtp tr H
                  (snd (store_read (idx, root, un) (update_tree tr idx (n # ns) b) s1))"
            by (rule store_read_ok [OF ih(1) ch ih(3)])
          then have "cache_ok fmtp tr H (snd y)" using r(3) ih(4) by simp
          moreover have "fst y = update_tree tr idx (n # ns) b"
            using r(3) ih(4) by (simp add: store_read_def)
          ultimately show ?thesis using ch ih(3) by blast
        qed
      qed
    qed
  qed
  then show ?thesis using assms(2) by simp
qed

section \<open>Sequences of calls\<close>

lemma getInitialRead_grows:
  "getInitialRead fmtp H root i s = Some (r, s') \<Longrightarrow>
   read_map s' = read_map s \<and> array_variables s \<subseteq>\<^sub>m array_variables s'"
proof -
  assume a: "getInitialRead fmtp H root i s = Some (r, s')"
  then obtain ev where "getArrayValues fmtp H root s = Some (ev, s')"
    by (auto simp: getInitialRead_def split: option.splits if_splits)
  then show ?thesis using getArrayValues_grows [of fmtp H root s ev s'] by simp
qed

lemma do_call_grows:
  assumes "do_call fmtp tr H c s = Some s'"
  shows "read_map s \<subseteq>\<^sub>m read_map s' \<and> array_variables s \<subseteq>\<^sub>m array_variables s'"
proof (cases c)
  case (GetArrayValues root)
  then obtain ev where g: "getArrayValues fmtp H root s = Some (ev, s')" using assms by auto
  show ?thesis using getArrayValues_grows [OF g] by simp
next
  case (GetInitialRead root i)
  then obtain r where g: "getInitialRead fmtp H root i s = Some (r, s')" using assms by auto
  show ?thesis using getInitialRead_grows [OF g] by simp
next
  case (GetReadForArray idx root un)
  then obtain r where g: "getReadForArray fmtp tr H idx root un s = Some (r, s')"
    using assms by auto
  show ?thesis using getReadForArray_grows [OF g] by simp
next
  case (MakeReadExpr re)
  then obtain r where g:
    "getReadForArray fmtp tr H (tr (index_re re)) (root_re re) (head_re re) s = Some (r, s')"
    using assms by (auto simp: makeReadExpr_def)
  show ?thesis using getReadForArray_grows [OF g] by simp
qed

lemma do_calls_grows:
  "do_calls fmtp tr H cs s = Some s' \<Longrightarrow>
   read_map s \<subseteq>\<^sub>m read_map s' \<and> array_variables s \<subseteq>\<^sub>m array_variables s'"
proof (induction cs arbitrary: s)
  case Nil
  then show ?case by simp
next
  case (Cons c cs)
  then obtain s1 where s1: "do_call fmtp tr H c s = Some s1" "do_calls fmtp tr H cs s1 = Some s'"
    by (auto split: option.splits)
  have a: "read_map s \<subseteq>\<^sub>m read_map s1" "array_variables s \<subseteq>\<^sub>m array_variables s1"
    using do_call_grows [OF s1(1)] by simp_all
  have b: "read_map s1 \<subseteq>\<^sub>m read_map s'" "array_variables s1 \<subseteq>\<^sub>m array_variables s'"
    using Cons.IH [OF s1(2)] by simp_all
  show ?case using map_le_trans [OF a(1) b(1)] map_le_trans [OF a(2) b(2)] by simp
qed

lemma do_calls_append:
  "do_calls fmtp tr H (cs1 @ cs2) s =
     (case do_calls fmtp tr H cs1 s of None \<Rightarrow> None | Some s1 \<Rightarrow> do_calls fmtp tr H cs2 s1)"
  by (induction cs1 arbitrary: s) (auto split: option.splits)

lemma getArrayValues_sound:
  assumes "arrays_ok fmtp H s" "getArrayValues fmtp H root s = Some (ev, s')"
  shows "arrays_ok fmtp H s' \<and> read_map s' = read_map s
         \<and> (\<exists>A. arrays H root = Some A \<and> make_leaves fmtp root A = Some ev)"
proof (cases "array_variables s root")
  case None
  then obtain A where A: "arrays H root = Some A" "make_leaves fmtp root A = Some ev"
    using assms(2) by (auto simp: getArrayValues_def split: option.splits)
  obtain s2 where "getArrayValues fmtp H root s = Some (ev, s2)" "arrays_ok fmtp H s2"
      "read_map s2 = read_map s"
    using getArrayValues_ok [OF assms(1) A] by blast
  then show ?thesis using assms(2) A by auto
next
  case (Some ev')
  then have "ev' = ev" "s' = s" using assms(2) by (simp_all add: getArrayValues_def)
  then show ?thesis using Some assms(1) unfolding arrays_ok_def by simp
qed

lemma cache_ok_arrays_step:
  "cache_ok fmtp tr H s \<Longrightarrow> arrays_ok fmtp H s' \<Longrightarrow> read_map s' = read_map s \<Longrightarrow>
   cache_ok fmtp tr H s'"
  by (simp add: cache_ok_def reads_ok_def)

lemma do_call_ok:
  assumes "cache_ok fmtp tr H s" "do_call fmtp tr H c s = Some s'"
  shows "cache_ok fmtp tr H s'"
proof (cases c)
  case (GetArrayValues root)
  then obtain ev where g: "getArrayValues fmtp H root s = Some (ev, s')" using assms by auto
  have aok: "arrays_ok fmtp H s" using assms(1) by (simp add: cache_ok_def)
  show ?thesis using getArrayValues_sound [OF aok g] cache_ok_arrays_step [OF assms(1)]
    by simp
next
  case (GetInitialRead root i)
  then obtain ev where g: "getArrayValues fmtp H root s = Some (ev, s')"
    using assms by (auto simp: getInitialRead_def split: option.splits if_splits)
  have aok: "arrays_ok fmtp H s" using assms(1) by (simp add: cache_ok_def)
  show ?thesis using getArrayValues_sound [OF aok g] cache_ok_arrays_step [OF assms(1)]
    by simp
next
  case (GetReadForArray idx root un)
  then obtain r where g: "getReadForArray fmtp tr H idx root un s = Some (r, s')"
    using assms by auto
  show ?thesis using getReadForArray_sound [OF g assms(1)] by simp
next
  case (MakeReadExpr re)
  then obtain r where g:
    "getReadForArray fmtp tr H (tr (index_re re)) (root_re re) (head_re re) s = Some (r, s')"
    using assms by (auto simp: makeReadExpr_def)
  show ?thesis using getReadForArray_sound [OF g assms(1)] by simp
qed

lemma do_calls_ok:
  "cache_ok fmtp tr H s \<Longrightarrow> do_calls fmtp tr H cs s = Some s' \<Longrightarrow> cache_ok fmtp tr H s'"
proof (induction cs arbitrary: s)
  case Nil
  then show ?case by simp
next
  case (Cons c cs)
  then obtain s1 where s1: "do_call fmtp tr H c s = Some s1" "do_calls fmtp tr H cs s1 = Some s'"
    by (auto split: option.splits)
  show ?case using Cons.IH [OF do_call_ok [OF Cons.prems(1) s1(1)] s1(2)] .
qed

section \<open>Reads of the base array\<close>

lemma innermost_default_ite_chain: "innermost_default (ite_chain idx ev n) = BvVal 0 8"
  by (induction n) (simp_all add: bv_val_def)

lemma bv_val_of_nat32: "k < 2 ^ 32 \<Longrightarrow> bv_val (of_nat k) 32 = BvVal k 32"
  by (simp add: bv_val_def unat_of_nat)

lemma else_conditions_base:
  "else_conditions (ite_chain idx ev (unat (n :: 32 word)))
     = map (\<lambda>k. Eq idx (BvVal k 32)) (rev [0..<unat n])"
proof -
  have "\<And>k. k \<in> set (rev [0..<unat n]) \<Longrightarrow> bv_val (of_nat k) 32 = BvVal k 32"
    using unat_lt32 [of n] by (intro bv_val_of_nat32) auto
  then show ?thesis by (simp add: else_conditions_ite_chain)
qed

lemma read_base_ok:
  assumes "cache_ok fmtp tr H s" "arrays H root = Some A" "make_leaves fmtp root A = Some ev"
  shows "\<exists>s'. getReadForArray fmtp tr H idx root None s
                = Some (ite_chain idx ev (unat (size_a A)), s')"
proof -
  have b: "base_read fmtp H idx root = Some (ite_chain idx ev (unat (size_a A)))"
    using assms(2,3) by (rule base_read_eq)
  show ?thesis using getReadForArray_ok [OF assms(1) chain_Nil b] by auto
qed

lemma constant_leaves:
  assumes "isConstantArray A" "unat (size_a A) \<le> length (constantValues A)"
  shows "make_leaves fmtp root A
           = Some (map (\<lambda>k. bv_val (ucast (constantValues A ! k)) 8) [0..<unat (size_a A)])"
  using assms by (simp add: make_leaves_eq)

text \<open>
  C3. For a constant array whose values are present for every offset, a builder whose caches
  are consistent, and a concrete 32-bit index \<open>k\<close> below the size, the read with no updates
  returns a term whose value is the stored constant reduced to 8 bits, which is exactly the
  stored constant when that is a byte.
\<close>

theorem constant_read_value:
  assumes "cache_ok fmtp tr H s" "arrays H root = Some A" "isConstantArray A"
      "unat (size_a A) \<le> length (constantValues A)" "k < size_a A"
  shows "\<exists>r s'. getReadForArray fmtp tr H (bv_val k 32) root None s = Some (r, s')
           \<and> eval env r = Some (VBv 8 (unat (constantValues A ! unat k) mod 256))
           \<and> (constantValues A ! unat k < 256 \<longrightarrow>
                eval env r = Some (VBv 8 (unat (constantValues A ! unat k))))"
proof -
  let ?ev = "map (\<lambda>k. bv_val (ucast (constantValues A ! k)) 8) [0..<unat (size_a A)]"
  let ?r = "ite_chain (bv_val k 32) ?ev (unat (size_a A))"
  have ml: "make_leaves fmtp root A = Some ?ev" using assms(3,4) by (rule constant_leaves)
  have k: "unat k < unat (size_a A)" using assms(5) by (simp add: word_less_nat_alt)
  obtain s' where 1: "getReadForArray fmtp tr H (bv_val k 32) root None s = Some (?r, s')"
    using read_base_ok [OF assms(1,2) ml] by blast
  have "eval env ?r = eval env (?ev ! unat k)"
    using base_chain_value [OF ml eval_bv_val32, of env k] k by simp
  then have 2: "eval env ?r = Some (VBv 8 (unat (constantValues A ! unat k) mod 256))"
    using leaf_value [OF ml k, of env] assms(3) by simp
  have 3: "constantValues A ! unat k < 256 \<longrightarrow>
             eval env ?r = Some (VBv 8 (unat (constantValues A ! unat k)))"
  proof
    assume "constantValues A ! unat k < 256"
    then have "unat (constantValues A ! unat k) < 256" by (simp add: word_less_nat_alt)
    then show "eval env ?r = Some (VBv 8 (unat (constantValues A ! unat k)))" using 2 by simp
  qed
  show ?thesis using 1 2 3 by blast
qed

theorem constant_read_value_witness:
  "\<exists>r s'. getReadForArray fmt_addr id demo_memory (BvVal 2 32) 100 None new_builder = Some (r, s')
      \<and> eval demo_env r = Some (VBv 8 30)"
  using constant_read_value [where fmtp = fmt_addr and tr = id and H = demo_memory
      and s = new_builder and root = 100 and k = 2 and env = demo_env,
      OF cache_ok_new demo_array_100]
  by (simp add: bv_val_def)

text \<open>
  C9. With no updates, the chain of a well-formed array ends in the 8-bit constant 0: for an
  array of size 0 the read is the literal \<open>BvVal 0 8\<close> whatever the index, and for any
  array a concrete 32-bit index at or beyond the size gives a read that evaluates to 0.
\<close>

theorem out_of_range_read_is_zero:
  assumes "cache_ok fmtp tr H s" "arrays H root = Some A" "make_leaves fmtp root A = Some ev"
  shows "\<exists>r s'. getReadForArray fmtp tr H idx root None s = Some (r, s')
           \<and> innermost_default r = BvVal 0 8
           \<and> (size_a A = 0 \<longrightarrow> r = BvVal 0 8)
           \<and> (size_a A \<le> k \<and> idx = bv_val k 32 \<longrightarrow> eval env r = Some (VBv 8 0))"
proof -
  let ?r = "ite_chain idx ev (unat (size_a A))"
  obtain s' where 1: "getReadForArray fmtp tr H idx root None s = Some (?r, s')"
    using read_base_ok [OF assms] by blast
  have 2: "innermost_default ?r = BvVal 0 8" by (rule innermost_default_ite_chain)
  have 3: "size_a A = 0 \<longrightarrow> ?r = BvVal 0 8" by (simp add: bv_val_def)
  have 4: "size_a A \<le> k \<and> idx = bv_val k 32 \<longrightarrow> eval env ?r = Some (VBv 8 0)"
  proof
    assume a: "size_a A \<le> k \<and> idx = bv_val k 32"
    then have "unat (size_a A) \<le> unat k" by (simp add: word_le_nat_alt)
    moreover have "eval env idx = Some (VBv 32 (unat k))" using a by (simp add: eval_bv_val32)
    ultimately show "eval env ?r = Some (VBv 8 0)"
      using base_chain_value [OF assms(3), of env idx "unat k"] by simp
  qed
  show ?thesis using 1 2 3 4 by blast
qed

lemma demo_array_400:
  "arrays demo_memory 400
     = Some \<lparr>name = ''none'', size_a = 0, isConstantArray = False, constantValues = []\<rparr>"
  by (simp add: demo_memory_def)

lemma demo_leaves_400:
  "make_leaves fmt_addr 400
     \<lparr>name = ''none'', size_a = 0, isConstantArray = False, constantValues = []\<rparr> = Some []"
  by (simp add: make_leaves_def symbolic_loop.simps)

theorem out_of_range_read_is_zero_witness:
  "(\<exists>s'. getReadForArray fmt_addr id demo_memory (BvConst ''x'' 32) 400 None new_builder
           = Some (BvVal 0 8, s'))
   \<and> (\<exists>r s'. getReadForArray fmt_addr id demo_memory (BvVal 4 32) 100 None new_builder
           = Some (r, s') \<and> eval demo_env r = Some (VBv 8 0))"
  using out_of_range_read_is_zero [where tr = id and s = new_builder
          and idx = "BvConst ''x'' 32" and k = 0 and env = demo_env,
          OF cache_ok_new demo_array_400 demo_leaves_400]
        out_of_range_read_is_zero [where tr = id and s = new_builder
          and idx = "BvVal 4 32" and k = 4 and env = demo_env,
          OF cache_ok_new demo_array_100 demo_leaves_100]
  by (auto simp: bv_val_def)

lemma demo_array_300:
  "arrays demo_memory 300
     = Some \<lparr>name = ''one'', size_a = 1, isConstantArray = True, constantValues = [7]\<rparr>"
  by (simp add: demo_memory_def)

lemma demo_leaves_300:
  "make_leaves fmt_addr 300
     \<lparr>name = ''one'', size_a = 1, isConstantArray = True, constantValues = [7]\<rparr>
     = Some [BvVal 7 8]"
  by (simp add: make_leaves_def constant_loop.simps bv_val_def)

text \<open>
  C5 (as amended). For every well-formed array of size 1 and no updates, the read at an index
  term \<open>idx\<close> is "if idx = 0 then the single leaf else 0": it evaluates to the leaf when the
  index is 0 and to 0 at every other 32-bit index.
\<close>

theorem size_one_read:
  assumes "cache_ok fmtp tr H s" "arrays H root = Some A" "make_leaves fmtp root A = Some ev"
      "size_a A = 1"
  shows "(\<exists>s'. getReadForArray fmtp tr H idx root None s
                 = Some (Ite (Eq idx (BvVal 0 32)) (ev ! 0) (BvVal 0 8), s'))
         \<and> (eval env idx = Some (VBv 32 0) \<longrightarrow>
              eval env (Ite (Eq idx (BvVal 0 32)) (ev ! 0) (BvVal 0 8)) = eval env (ev ! 0))
         \<and> (eval env idx = Some (VBv 32 k) \<and> k \<noteq> 0 \<longrightarrow>
              eval env (Ite (Eq idx (BvVal 0 32)) (ev ! 0) (BvVal 0 8)) = Some (VBv 8 0))"
proof -
  let ?r = "Ite (Eq idx (BvVal 0 32)) (ev ! 0) (BvVal 0 8)"
  have n: "unat (size_a A) = Suc 0" using assms(4) by simp
  have r: "ite_chain idx ev (Suc 0) = ?r" by (rule ite_chain_1)
  have 1: "\<exists>s'. getReadForArray fmtp tr H idx root None s = Some (?r, s')"
    using read_base_ok [OF assms(1,2,3), of idx] unfolding n r .
  have v: "eval env idx = Some (VBv 32 j) \<Longrightarrow>
             eval env ?r = (if j < Suc 0 then eval env (ev ! j) else Some (VBv 8 0))" for j
    using base_chain_value [OF assms(3), of env idx j] unfolding n r .
  have 2: "eval env idx = Some (VBv 32 0) \<longrightarrow> eval env ?r = eval env (ev ! 0)"
  proof
    assume "eval env idx = Some (VBv 32 0)"
    from v [OF this] show "eval env ?r = eval env (ev ! 0)" by simp
  qed
  have 3: "eval env idx = Some (VBv 32 k) \<and> k \<noteq> 0 \<longrightarrow> eval env ?r = Some (VBv 8 0)"
  proof
    assume a: "eval env idx = Some (VBv 32 k) \<and> k \<noteq> 0"
    then have "eval env idx = Some (VBv 32 k)" by simp
    from v [OF this] a show "eval env ?r = Some (VBv 8 0)" by simp
  qed
  show ?thesis using 1 2 3 by blast
qed

theorem size_one_read_witness:
  "(\<exists>s'. getReadForArray fmt_addr id demo_memory (BvConst ''x'' 32) 300 None new_builder
           = Some (Ite (Eq (BvConst ''x'' 32) (BvVal 0 32)) (BvVal 7 8) (BvVal 0 8), s'))
   \<and> eval demo_env (Ite (Eq (BvConst ''x'' 32) (BvVal 0 32)) (BvVal 7 8) (BvVal 0 8))
       = Some (VBv 8 0)"
proof -
  have e: "eval demo_env (BvConst ''x'' 32) = Some (VBv 32 5)" by (simp add: demo_env_def)
  show ?thesis
    using size_one_read [where tr = id and s = new_builder and idx = "BvConst ''x'' 32"
            and env = demo_env and k = 5, OF cache_ok_new demo_array_300 demo_leaves_300] e
    by simp
qed

text \<open>
  C5 (as stated) fails: for the constant array [7] of size 1 the read at the concrete index 1
  is not the single leaf but a conditional, and it evaluates to 0 where the leaf is 7; the
  read at index 0 evaluates to 7, so the result depends on the index.
\<close>

theorem size_one_read_counterexample:
  "map_option fst (getReadForArray fmt_addr id demo_memory (BvVal 1 32) 300 None new_builder)
     = Some (Ite (Eq (BvVal 1 32) (BvVal 0 32)) (BvVal 7 8) (BvVal 0 8))
   \<and> map_option fst (getArrayValues fmt_addr demo_memory 300 new_builder) = Some [BvVal 7 8]
   \<and> eval demo_env (Ite (Eq (BvVal 1 32) (BvVal 0 32)) (BvVal 7 8) (BvVal 0 8)) = Some (VBv 8 0)
   \<and> eval demo_env (BvVal 7 8) = Some (VBv 8 7)
   \<and> map_option fst (getReadForArray fmt_addr id demo_memory (BvVal 0 32) 300 None new_builder)
     = Some (Ite (Eq (BvVal 0 32) (BvVal 0 32)) (BvVal 7 8) (BvVal 0 8))
   \<and> eval demo_env (Ite (Eq (BvVal 0 32) (BvVal 0 32)) (BvVal 7 8) (BvVal 0 8)) = Some (VBv 8 7)"
  by (simp add: getReadForArray_base getReadForInitialArray_def getArrayValues_def
        make_leaves_def constant_loop.simps ite_loop.simps new_builder_def map_insert_def
        bv_val_def demo_memory_def store_read_def)

text \<open>
  C10 (as amended). In the base-array loop every comparison is between the index and the
  32-bit constant of the offset, for every array size. For a well-formed array that is not
  empty the resulting term is well-sorted exactly when the index is a 32-bit bit-vector; for
  an array of size 0 there is no comparison and the result is well-sorted for every index.
\<close>

theorem base_fold_sort:
  assumes "arrays_ok fmtp H s" "arrays H root = Some A" "make_leaves fmtp root A = Some ev"
  shows "\<exists>r s'. getReadForInitialArray fmtp H idx root s = Some (r, s')
           \<and> else_conditions r = map (\<lambda>k. Eq idx (BvVal k 32)) (rev [0..<unat (size_a A)])
           \<and> sort_of r = (if size_a A = 0 \<or> sort_of idx = Some (BvSort 32)
                           then Some (BvSort 8) else None)"
proof -
  let ?r = "ite_chain idx ev (unat (size_a A))"
  obtain s' where 1: "getReadForInitialArray fmtp H idx root s = Some (?r, s')"
    using getReadForInitialArray_ok [OF assms, of idx] by blast
  have 2: "else_conditions ?r = map (\<lambda>k. Eq idx (BvVal k 32)) (rev [0..<unat (size_a A)])"
    by (rule else_conditions_base)
  have z: "(unat (size_a A) = 0) = (size_a A = 0)" by (simp add: unat_eq_0)
  have 3: "sort_of ?r = (if size_a A = 0 \<or> sort_of idx = Some (BvSort 32)
                           then Some (BvSort 8) else None)"
    using sort_of_ite_chain [of "unat (size_a A)" ev idx] leaf_sort [OF assms(3)] z by simp
  show ?thesis using 1 2 3 by blast
qed

theorem base_fold_sort_witness:
  "(\<exists>r s'. getReadForInitialArray fmt_addr demo_memory (BvConst ''x'' 32) 100 new_builder
             = Some (r, s')
       \<and> else_conditions r
           = [Eq (BvConst ''x'' 32) (BvVal 3 32), Eq (BvConst ''x'' 32) (BvVal 2 32),
              Eq (BvConst ''x'' 32) (BvVal 1 32), Eq (BvConst ''x'' 32) (BvVal 0 32)]
       \<and> sort_of r = Some (BvSort 8))
   \<and> (\<exists>r s'. getReadForInitialArray fmt_addr demo_memory (BvConst ''x'' 16) 100 new_builder
             = Some (r, s') \<and> sort_of r = None)"
proof -
  have ok: "arrays_ok fmt_addr demo_memory new_builder"
    by (simp add: arrays_ok_def new_builder_def)
  have u: "[0..<4::nat] = [0, 1, 2, 3]" by (simp add: upt_rec)
  show ?thesis
    using base_fold_sort [where idx = "BvConst ''x'' 32", OF ok demo_array_100 demo_leaves_100]
          base_fold_sort [where idx = "BvConst ''x'' 16", OF ok demo_array_100 demo_leaves_100]
    by (auto simp: u)
qed

text \<open>
  C10 (as stated) fails for an empty array: the read of the size-0 array at an 8-bit index
  is the constant 0, which is well-sorted although the index is not 32 bits wide.
\<close>

theorem base_fold_sort_counterexample:
  "map_option fst (getReadForInitialArray fmt_addr demo_memory (BvConst ''x'' 8) 400 new_builder)
     = Some (BvVal 0 8)
   \<and> sort_of (BvVal 0 8) = Some (BvSort 8)
   \<and> sort_of (BvConst ''x'' 8) = Some (BvSort 8)"
  by (simp add: getReadForInitialArray_def getArrayValues_def make_leaves_def
        symbolic_loop.simps ite_loop.simps new_builder_def map_insert_def bv_val_def
        demo_memory_def)

section \<open>Reads through an update chain\<close>

lemma base_chain_has_value:
  assumes "make_leaves fmtp root A = Some ev" "eval env idx = Some (VBv 32 k)"
  shows "\<exists>y. eval env (ite_chain idx ev (unat (size_a A))) = Some (VBv 8 y)"
proof (cases "k < unat (size_a A)")
  case True
  then show ?thesis
    using base_chain_value [OF assms] leaf_has_value [OF assms(1) True, of env] by simp
next
  case False
  then show ?thesis using base_chain_value [OF assms] by simp
qed

lemma read_chain_ok:
  assumes "cache_ok fmtp tr H s" "arrays H root = Some A" "make_leaves fmtp root A = Some ev"
      "chain H un ns"
  shows "\<exists>s'. getReadForArray fmtp tr H idx root un s
                = Some (update_tree tr idx ns (ite_chain idx ev (unat (size_a A))), s')
           \<and> cache_ok fmtp tr H s'
           \<and> read_map s' (idx, root, un)
               = Some (update_tree tr idx ns (ite_chain idx ev (unat (size_a A))))"
proof -
  have b: "base_read fmtp H idx root = Some (ite_chain idx ev (unat (size_a A)))"
    using assms(2,3) by (rule base_read_eq)
  show ?thesis using getReadForArray_ok [OF assms(1,4) b] by blast
qed

lemma eval_update_step:
  assumes "eval env idx = Some (VBv 32 k)" "eval env i = Some (VBv 32 k')"
      "eval env v = Some (VBv 8 x)" "eval env older = Some (VBv 8 y)"
  shows "eval env (Ite (Eq idx i) v older) = Some (VBv 8 (if k = k' then x else y))"
  using assms by simp

text \<open>
  C2. For every well-formed base array and update chain of two nodes (newest first), with
  32-bit indices and 8-bit values: a read whose index evaluates to the newest write's index
  evaluates to the newest written value whatever the array holds, and a read whose index
  differs from both written indices evaluates to the base array's leaf at that index
  (and to the default 0 when the index is beyond the array).
\<close>

theorem read_over_write:
  assumes "cache_ok fmtp tr H s" "arrays H root = Some A" "make_leaves fmtp root A = Some ev"
      "chain H un [n0, n1]"
      "eval env idx = Some (VBv 32 k)"
      "eval env (tr (index_un n0)) = Some (VBv 32 k0)"
      "eval env (tr (value_un n0)) = Some (VBv 8 x0)"
      "eval env (tr (index_un n1)) = Some (VBv 32 k1)"
      "eval env (tr (value_un n1)) = Some (VBv 8 x1)"
  shows "\<exists>r s'. getReadForArray fmtp tr H idx root un s = Some (r, s')
           \<and> (k = k0 \<longrightarrow> eval env r = Some (VBv 8 x0))
           \<and> (k \<noteq> k0 \<and> k \<noteq> k1 \<longrightarrow>
                eval env r = (if k < unat (size_a A) then eval env (ev ! k)
                              else Some (VBv 8 0)))"
proof -
  let ?b = "ite_chain idx ev (unat (size_a A))"
  let ?r1 = "Ite (Eq idx (tr (index_un n1))) (tr (value_un n1)) ?b"
  let ?r = "Ite (Eq idx (tr (index_un n0))) (tr (value_un n0)) ?r1"
  have "\<exists>s'. getReadForArray fmtp tr H idx root un s = Some (?r, s')"
    using read_chain_ok [OF assms(1,2,3,4), of idx] by auto
  then obtain s' where 1: "getReadForArray fmtp tr H idx root un s = Some (?r, s')" ..
  obtain y where y: "eval env ?b = Some (VBv 8 y)"
    using base_chain_has_value [OF assms(3,5)] by blast
  have e1: "eval env ?r1 = Some (VBv 8 (if k = k1 then x1 else y))"
    using eval_update_step [OF assms(5,8,9) y] .
  have e0: "eval env ?r = Some (VBv 8 (if k = k0 then x0 else if k = k1 then x1 else y))"
    using eval_update_step [OF assms(5,6,7) e1] .
  have 2: "k = k0 \<longrightarrow> eval env ?r = Some (VBv 8 x0)" using e0 by simp
  have 3: "k \<noteq> k0 \<and> k \<noteq> k1 \<longrightarrow>
             eval env ?r = (if k < unat (size_a A) then eval env (ev ! k) else Some (VBv 8 0))"
    using e0 y base_chain_value [OF assms(3,5)] by simp
  show ?thesis using 1 2 3 by blast
qed

lemma demo_chain_2:
  "chain demo_memory (Some 2)
     [\<lparr>index_un = BvConst ''j'' 32, value_un = BvConst ''w'' 8, next_un = Some 1\<rparr>,
      \<lparr>index_un = BvVal 2 32, value_un = BvVal 99 8, next_un = None\<rparr>]"
  by (simp add: demo_memory_def)

theorem read_over_write_witness:
  "(\<exists>r s'. getReadForArray fmt_addr id demo_memory (BvConst ''j'' 32) 100 (Some 2) new_builder
             = Some (r, s') \<and> eval demo_env r = Some (VBv 8 77))
   \<and> (\<exists>r s'. getReadForArray fmt_addr id demo_memory (BvVal 1 32) 100 (Some 2) new_builder
             = Some (r, s') \<and> eval demo_env r = Some (VBv 8 20))"
proof -
  have j: "eval demo_env (BvConst ''j'' 32) = Some (VBv 32 3)" by (simp add: demo_env_def)
  have w: "eval demo_env (BvConst ''w'' 8) = Some (VBv 8 77)" by (simp add: demo_env_def)
  have i1: "eval demo_env (BvVal 2 32) = Some (VBv 32 2)" by simp
  have v1: "eval demo_env (BvVal 99 8) = Some (VBv 8 99)" by simp
  have i: "eval demo_env (BvVal 1 32) = Some (VBv 32 1)" by simp
  have a: "\<exists>r s'. getReadForArray fmt_addr id demo_memory (BvConst ''j'' 32) 100 (Some 2)
                     new_builder = Some (r, s') \<and> eval demo_env r = Some (VBv 8 77)"
    using read_over_write [where tr = id and s = new_builder and env = demo_env
            and idx = "BvConst ''j'' 32" and k = 3 and ?k0.0 = 3 and ?x0.0 = 77
            and ?k1.0 = 2 and ?x1.0 = 99,
            OF cache_ok_new demo_array_100 demo_leaves_100 demo_chain_2]
          j w i1 v1
    by simp
  have b: "\<exists>r s'. getReadForArray fmt_addr id demo_memory (BvVal 1 32) 100 (Some 2)
                     new_builder = Some (r, s') \<and> eval demo_env r = Some (VBv 8 20)"
    using read_over_write [where tr = id and s = new_builder and env = demo_env
            and idx = "BvVal 1 32" and k = 1 and ?k0.0 = 3 and ?x0.0 = 77
            and ?k1.0 = 2 and ?x1.0 = 99,
            OF cache_ok_new demo_array_100 demo_leaves_100 demo_chain_2]
          j w i1 v1 i
    by simp
  show ?thesis using a b by simp
qed

text \<open>
  C4. For a builder with consistent caches, a well-formed array and a finite update chain,
  the call returns a term \<open>r\<close> and a builder \<open>s'\<close> in which \<open>r\<close> is stored under the
  call's key (index term, array address, node address). A second call with that key on \<open>s'\<close>
  is decided by the key alone: whatever the memory, the translation and the pointer format
  are by then, it returns the stored \<open>r\<close> and the very same \<open>s'\<close>. So nothing is read from
  memory, nothing is computed again and no entry is added to either cache.
\<close>

theorem resolve_twice_returns_cached:
  fixes H :: "'e memory"
  assumes "cache_ok fmtp tr H s" "arrays H root = Some A" "make_leaves fmtp root A = Some ev"
      "chain H un ns"
  shows "\<exists>r s'. getReadForArray fmtp tr H idx root un s = Some (r, s')
           \<and> read_map s' (idx, root, un) = Some r
           \<and> getReadForArray fmtp tr H idx root un s' = Some (r, s')
           \<and> (\<forall>fmtp' tr' (H' :: 'e memory).
                 getReadForArray fmtp' tr' H' idx root un s' = Some (r, s'))"
proof -
  let ?r = "update_tree tr idx ns (ite_chain idx ev (unat (size_a A)))"
  obtain s' where s': "getReadForArray fmtp tr H idx root un s = Some (?r, s')"
      "read_map s' (idx, root, un) = Some ?r"
    using read_chain_ok [OF assms, of idx] by blast
  have hit: "getReadForArray fmtp' tr' H' idx root un s' = Some (?r, s')"
    for fmtp' and tr' :: "'e \<Rightarrow> expr" and H' :: "'e memory"
    using s'(2) by (rule getReadForArray_hit)
  show ?thesis using s' hit by blast
qed

theorem resolve_twice_returns_cached_witness:
  "\<exists>r s'. getReadForArray fmt_addr id demo_memory (BvConst ''x'' 32) 100 (Some 2) new_builder
             = Some (r, s')
      \<and> read_map s' (BvConst ''x'' 32, 100, Some 2) = Some r
      \<and> getReadForArray fmt_addr id demo_memory (BvConst ''x'' 32) 100 (Some 2) s'
             = Some (r, s')
      \<and> getReadForArray dec id empty_memory (BvConst ''x'' 32) 100 (Some 2) s'
             = Some (r, s')"
proof -
  obtain r s' where
      "getReadForArray fmt_addr id demo_memory (BvConst ''x'' 32) 100 (Some 2) new_builder
         = Some (r, s')"
      "read_map s' (BvConst ''x'' 32, 100, Some 2) = Some r"
      "getReadForArray fmt_addr id demo_memory (BvConst ''x'' 32) 100 (Some 2) s'
         = Some (r, s')"
      "\<forall>fmtp' tr' (H' :: expr memory).
         getReadForArray fmtp' tr' H' (BvConst ''x'' 32) 100 (Some 2) s' = Some (r, s')"
    using resolve_twice_returns_cached [where tr = id and s = new_builder
            and idx = "BvConst ''x'' 32",
            OF cache_ok_new demo_array_100 demo_leaves_100 demo_chain_2]
    by blast
  then show ?thesis by blast
qed

text \<open>
  Without the entry under its key the same call on the empty memory has nothing to return:
  the result above comes from the cache.
\<close>

lemma resolve_on_empty_memory:
  "getReadForArray dec id empty_memory (BvConst ''x'' 32) 100 (Some 2) new_builder = None"
  by (simp add: getReadForArray_dangling new_builder_def empty_memory_def)

section \<open>The caches over time\<close>

lemma map_le_lookup: "m \<subseteq>\<^sub>m m' \<Longrightarrow> m k = Some v \<Longrightarrow> m' k = Some v"
  by (metis domI map_le_def)

lemma demo_array_200:
  "arrays demo_memory 200
     = Some \<lparr>name = ''sym'', size_a = 2, isConstantArray = False, constantValues = []\<rparr>"
  by (simp add: demo_memory_def)

lemma demo_leaves_200:
  "make_leaves fmt_addr 200
     \<lparr>name = ''sym'', size_a = 2, isConstantArray = False, constantValues = []\<rparr>
     = Some [BvConst ''sym_0xc8_0'' 8, BvConst ''sym_0xc8_1'' 8]"
  by (simp add: make_leaves_def symbolic_loop.simps bv_const_def leaf_name_def fmt_addr_def
        c_str_def dec.simps digit_def hex.simps hex_digit_def)

text \<open>
  C6. Over any sequence of calls of the builder, cut at any point: every entry that the
  resolved-read cache holds at the cut is still there, with the same term, at the end. A call
  therefore only adds entries, and a key never comes to stand for a second term.
\<close>

theorem read_cache_only_grows:
  assumes "do_calls fmtp tr H (cs1 @ cs2) s = Some s'"
  shows "\<exists>s1. do_calls fmtp tr H cs1 s = Some s1 \<and> do_calls fmtp tr H cs2 s1 = Some s'
           \<and> (\<forall>key e. read_map s key = Some e \<longrightarrow> read_map s1 key = Some e)
           \<and> (\<forall>key e. read_map s1 key = Some e \<longrightarrow> read_map s' key = Some e)"
proof -
  obtain s1 where s1: "do_calls fmtp tr H cs1 s = Some s1" "do_calls fmtp tr H cs2 s1 = Some s'"
    using assms by (auto simp: do_calls_append split: option.splits)
  have a: "read_map s \<subseteq>\<^sub>m read_map s1" using do_calls_grows [OF s1(1)] by simp
  have b: "read_map s1 \<subseteq>\<^sub>m read_map s'" using do_calls_grows [OF s1(2)] by simp
  have "\<forall>key e. read_map s key = Some e \<longrightarrow> read_map s1 key = Some e"
    using map_le_lookup [OF a] by blast
  moreover have "\<forall>key e. read_map s1 key = Some e \<longrightarrow> read_map s' key = Some e"
    using map_le_lookup [OF b] by blast
  ultimately show ?thesis using s1 by blast
qed

theorem read_cache_only_grows_witness:
  "\<exists>r s1 s'.
      do_calls fmt_addr id demo_memory [GetReadForArray (BvConst ''x'' 32) 100 (Some 2)]
        new_builder = Some s1
      \<and> do_calls fmt_addr id demo_memory [GetReadForArray (BvVal 1 32) 200 None] s1 = Some s'
      \<and> read_map s1 (BvConst ''x'' 32, 100, Some 2) = Some r
      \<and> read_map s' (BvConst ''x'' 32, 100, Some 2) = Some r"
proof -
  obtain r s1 where 1:
      "getReadForArray fmt_addr id demo_memory (BvConst ''x'' 32) 100 (Some 2) new_builder
         = Some (r, s1)"
      "cache_ok fmt_addr id demo_memory s1"
      "read_map s1 (BvConst ''x'' 32, 100, Some 2) = Some r"
    using read_chain_ok [where tr = id and s = new_builder and idx = "BvConst ''x'' 32",
            OF cache_ok_new demo_array_100 demo_leaves_100 demo_chain_2]
    by blast
  obtain r2 s2 where 2:
      "getReadForArray fmt_addr id demo_memory (BvVal 1 32) 200 None s1 = Some (r2, s2)"
    using read_chain_ok [where idx = "BvVal 1 32", OF 1(2) demo_array_200 demo_leaves_200
            chain_Nil]
    by blast
  have dc: "do_calls fmt_addr id demo_memory
              ([GetReadForArray (BvConst ''x'' 32) 100 (Some 2)]
               @ [GetReadForArray (BvVal 1 32) 200 None]) new_builder = Some s2"
    using 1(1) 2 by simp
  show ?thesis using read_cache_only_grows [OF dc] 1 2 by auto
qed

text \<open>
  C7. For a builder whose leaf cache is consistent and a well-formed array, getArrayValues
  returns the vector built for the array, of length the declared size. On a miss the builder
  changes by exactly one entry, the vector under the array's address; on a hit it does not
  change. From then on, and after any further sequence of calls, that entry is in the cache
  and a query for the address is decided by it alone: whatever the memory holds by then, it
  returns the same vector and the same builder, so the vector is built at most once.
\<close>

theorem leaf_vector_cached:
  fixes H :: "'e memory"
  assumes "arrays_ok fmtp H s" "arrays H root = Some A" "make_leaves fmtp root A = Some ev"
  shows "\<exists>s1. getArrayValues fmtp H root s = Some (ev, s1)
           \<and> length ev = unat (size_a A)
           \<and> s1 = (if array_variables s root = None
                    then s\<lparr>array_variables := (array_variables s)(root \<mapsto> ev)\<rparr> else s)
           \<and> array_variables s1 root = Some ev
           \<and> (\<forall>fmtp' (H' :: 'e memory). getArrayValues fmtp' H' root s1 = Some (ev, s1))
           \<and> (\<forall>cs s2. do_calls fmtp tr H cs s1 = Some s2 \<longrightarrow>
                 array_variables s2 root = Some ev
                 \<and> (\<forall>fmtp' (H' :: 'e memory).
                       getArrayValues fmtp' H' root s2 = Some (ev, s2)))"
proof -
  obtain s1 where s1: "getArrayValues fmtp H root s = Some (ev, s1)"
      "array_variables s1 root = Some ev"
    using getArrayValues_ok [OF assms] by blast
  have 2: "length ev = unat (size_a A)" using assms(3) by (rule make_leaves_length)
  have 3: "s1 = (if array_variables s root = None
                 then s\<lparr>array_variables := (array_variables s)(root \<mapsto> ev)\<rparr> else s)"
  proof (cases "array_variables s root")
    case None
    then show ?thesis using getArrayValues_miss [OF None assms(2,3)] s1(1) by simp
  next
    case (Some ev')
    then show ?thesis using getArrayValues_hit [OF Some, of fmtp H] s1(1) by simp
  qed
  have hit: "array_variables s2 root = Some ev \<Longrightarrow>
             getArrayValues fmtp' H' root s2 = Some (ev, s2)"
    for fmtp' s2 and H' :: "'e memory"
    by (rule getArrayValues_hit)
  have 4: "\<forall>fmtp' (H' :: 'e memory). getArrayValues fmtp' H' root s1 = Some (ev, s1)"
    using hit [OF s1(2)] by blast
  have 5: "\<forall>cs s2. do_calls fmtp tr H cs s1 = Some s2 \<longrightarrow>
             array_variables s2 root = Some ev
             \<and> (\<forall>fmtp' (H' :: 'e memory). getArrayValues fmtp' H' root s2 = Some (ev, s2))"
  proof (intro allI impI)
    fix cs s2
    assume "do_calls fmtp tr H cs s1 = Some s2"
    then have "array_variables s1 \<subseteq>\<^sub>m array_variables s2" using do_calls_grows by blast
    then have e: "array_variables s2 root = Some ev" using s1(2) by (rule map_le_lookup)
    show "array_variables s2 root = Some ev
          \<and> (\<forall>fmtp' (H' :: 'e memory). getArrayValues fmtp' H' root s2 = Some (ev, s2))"
      using e hit [OF e] by blast
  qed
  show ?thesis using s1 2 3 4 5 by blast
qed

theorem leaf_vector_cached_witness:
  "\<exists>s2. getArrayValues fmt_addr demo_memory 100 new_builder
           = Some ([BvVal 10 8, BvVal 20 8, BvVal 30 8, BvVal 40 8],
                   new_builder\<lparr>array_variables :=
                     [100 \<mapsto> [BvVal 10 8, BvVal 20 8, BvVal 30 8, BvVal 40 8]]\<rparr>)
      \<and> length [BvVal 10 8, BvVal 20 8, BvVal 30 8, BvVal 40 8] = unat (4 :: 32 word)
      \<and> do_calls fmt_addr id demo_memory [GetReadForArray (BvVal 1 32) 200 None]
           (new_builder\<lparr>array_variables :=
              [100 \<mapsto> [BvVal 10 8, BvVal 20 8, BvVal 30 8, BvVal 40 8]]\<rparr>) = Some s2
      \<and> array_variables s2 100 = Some [BvVal 10 8, BvVal 20 8, BvVal 30 8, BvVal 40 8]
      \<and> getArrayValues dec empty_memory 100 s2
           = Some ([BvVal 10 8, BvVal 20 8, BvVal 30 8, BvVal 40 8], s2)"
proof -
  let ?ev = "[BvVal 10 8, BvVal 20 8, BvVal 30 8, BvVal 40 8]"
  let ?s1 = "new_builder\<lparr>array_variables := [100 \<mapsto> ?ev]\<rparr>"
  have ok: "arrays_ok fmt_addr demo_memory new_builder"
    by (simp add: arrays_ok_def new_builder_def)
  have n: "array_variables new_builder 100 = None" by (simp add: new_builder_def)
  have e: "(array_variables new_builder)(100 \<mapsto> ?ev) = [100 \<mapsto> ?ev]"
    by (simp add: new_builder_def)
  obtain s1 where s1: "getArrayValues fmt_addr demo_memory 100 new_builder = Some (?ev, s1)"
      "s1 = ?s1"
      "\<forall>cs s2. do_calls fmt_addr id demo_memory cs s1 = Some s2 \<longrightarrow>
         array_variables s2 100 = Some ?ev
         \<and> (\<forall>fmtp' (H' :: expr memory). getArrayValues fmtp' H' 100 s2 = Some (?ev, s2))"
    using leaf_vector_cached [where tr = id, OF ok demo_array_100 demo_leaves_100] n e
    by auto
  have "arrays_ok fmt_addr demo_memory s1 \<and> read_map s1 = read_map new_builder"
    using getArrayValues_sound [OF ok s1(1)] by simp
  then have ok1: "cache_ok fmt_addr id demo_memory s1"
    using cache_ok_arrays_step [OF cache_ok_new] by blast
  obtain r2 s2 where 2:
      "getReadForArray fmt_addr id demo_memory (BvVal 1 32) 200 None s1 = Some (r2, s2)"
    using read_chain_ok [where idx = "BvVal 1 32", OF ok1 demo_array_200 demo_leaves_200
            chain_Nil]
    by blast
  have dc: "do_calls fmt_addr id demo_memory [GetReadForArray (BvVal 1 32) 200 None] s1
              = Some s2"
    using 2 by simp
  have last: "array_variables s2 100 = Some ?ev"
      "getArrayValues dec empty_memory 100 s2 = Some (?ev, s2)"
    using s1(3) dc by blast+
  have len: "length ?ev = unat (4 :: 32 word)" by simp
  show ?thesis using s1(1) len dc last unfolding s1(2) by blast
qed




end
